theory Spec2Isabelle
  imports Main
begin

section \<open>DrSax: a SAX-driven HTML to Markdown renderer\<close>

text \<open>
  The development embeds \<^verbatim>\<open>lib/drsax.js\<close> and \<^verbatim>\<open>dialect.js\<close>. The tokenizer
  (htmlparser2) is an external collaborator: the renderer is driven by the sequence of
  open, text and close events it delivers, and that sequence is the input of the model.
  JavaScript arrays are lists whose last element is the top of the stack
  (\<^verbatim>\<open>push\<close> appends, \<^verbatim>\<open>pop\<close> drops the last element and does nothing on an empty
  array); \<^verbatim>\<open>undefined\<close> is \<open>None\<close>, or \<open>Absent\<close> where a table is looked up.
\<close>

subsection \<open>The dialect table\<close>

text \<open>
  One entry of the dialect. Every entry of \<^verbatim>\<open>dialect.js\<close> carries the strings
  \<^verbatim>\<open>open\<close> and \<^verbatim>\<open>close\<close>; \<^verbatim>\<open>block\<close>, \<^verbatim>\<open>indent\<close> and \<^verbatim>\<open>attrs\<close> are optional
  properties. A missing \<^verbatim>\<open>block\<close> is falsy and is \<open>False\<close> here; a missing
  \<^verbatim>\<open>indent\<close> or \<^verbatim>\<open>attrs\<close> is \<open>None\<close>. The attributes of an entry are kept in
  declaration order (the order of \<^verbatim>\<open>Object.keys\<close>), each key with its open and close
  marker.
\<close>

record tagspec =
  "open" :: string
  close :: string
  block :: bool
  indent :: "string option"
  attrs :: "(string \<times> (string \<times> string)) list option"

text \<open>The line break and the tab character of the JavaScript string literals.\<close>

definition nl :: char where
  "nl = CHR 0x0A"

definition tab :: char where
  "tab = CHR 0x09"

definition plain :: "string \<Rightarrow> string \<Rightarrow> tagspec" where
  "plain opn cls = \<lparr>open = opn, close = cls, block = False, indent = None, attrs = None\<rparr>"

text \<open>The entries of \<^verbatim>\<open>dialect.js\<close>, in the order of the file.\<close>

definition dialect_entries :: "(string \<times> tagspec) list" where
  "dialect_entries =
    [(''b'', plain ''**'' ''**''),
     (''i'', plain ''*'' ''*''),
     (''img'', \<lparr>open = ''!'', close = '''', block = False, indent = None,
        attrs = Some [(''alt'', (''['', '']'')), (''src'', (''('', '')''))]\<rparr>),
     (''a'', \<lparr>open = '''', close = '''', block = False, indent = None,
        attrs = Some [(''text'', (''['', '']'')), (''href'', (''('', '')''))]\<rparr>),
     (''blockquote'', \<lparr>open = ''> '', close = '''', block = True, indent = Some ''> '',
        attrs = None\<rparr>),
     (''code'', \<lparr>open = ''```'' @ [nl], close = nl # ''```'', block = True, indent = None,
        attrs = None\<rparr>),
     (''pre'', plain ''`'' ''`''),
     (''p'', \<lparr>open = '''', close = '''', block = True, indent = None, attrs = None\<rparr>),
     (''ol'', \<lparr>open = '''', close = '''', block = True, indent = Some [tab], attrs = None\<rparr>),
     (''ul'', \<lparr>open = '''', close = '''', block = True, indent = Some [tab], attrs = None\<rparr>),
     (''olli'', plain ''1. '' [nl]),
     (''ulli'', plain ''* '' [nl]),
     (''hr'', \<lparr>open = ''- - -'', close = '''', block = True, indent = None, attrs = None\<rparr>),
     (''h1'', plain ''# '' [nl]),
     (''h2'', plain ''## '' [nl]),
     (''h3'', plain ''### '' [nl]),
     (''h4'', plain ''#### '' [nl]),
     (''h5'', plain ''##### '' [nl]),
     (''h6'', plain ''###### '' [nl])]"

text \<open>
  What \<^verbatim>\<open>this.tagTable[name]\<close> yields: \<^verbatim>\<open>undefined\<close>, an entry of the dialect, or
  a property that the table object inherits from its prototype. Such a property is a
  function or an object: it is truthy and has none of the properties \<^verbatim>\<open>open\<close>,
  \<^verbatim>\<open>close\<close>, \<^verbatim>\<open>block\<close>, \<^verbatim>\<open>indent\<close> and \<^verbatim>\<open>attrs\<close>.
\<close>

datatype lookup = Absent | Entry tagspec | Inherited

text \<open>
  The property names a plain object inherits from \<^verbatim>\<open>Object.prototype\<close>. The table
  of \<^verbatim>\<open>dialect.js\<close> is an object literal, so a lookup of one of these names finds
  the inherited property.
\<close>

definition object_prototype_names :: "string list" where
  "object_prototype_names =
    [''constructor'', ''__defineGetter__'', ''__defineSetter__'', ''hasOwnProperty'',
     ''__lookupGetter__'', ''__lookupSetter__'', ''isPrototypeOf'', ''propertyIsEnumerable'',
     ''toString'', ''valueOf'', ''__proto__'', ''toLocaleString'']"

definition defaultDialect :: "string \<Rightarrow> lookup" where
  "defaultDialect name =
     (case map_of dialect_entries name of
        Some t \<Rightarrow> Entry t
      | None \<Rightarrow> if name \<in> set object_prototype_names then Inherited else Absent)"

subsection \<open>Helpers and configuration\<close>

text \<open>
  Modelled from the spec: \<^verbatim>\<open>lib/array-last\<close> is not among the sources. The spec reads
  every use of it as the top of a stack; on an empty array the result is
  \<^verbatim>\<open>undefined\<close>.
\<close>

definition last_opt :: "'a list \<Rightarrow> 'a option" where
  "last_opt xs = (if xs = [] then None else Some (last xs))"

text \<open>
  Modelled from the spec: \<^verbatim>\<open>lib/repeat\<close> is not among the sources. The spec has the
  indent unit repeated as many times as the indent stack is deep.
\<close>

definition repeat :: "string \<Rightarrow> nat \<Rightarrow> string" where
  "repeat unit n = concat (replicate n unit)"

datatype phase = PhaseOpen

datatype error = TypeError

text \<open>
  What a converter is built from: the dialect in use (\<^verbatim>\<open>this.tagTable\<close>, the default
  one or \<^verbatim>\<open>options.dialect\<close>), the option \<^verbatim>\<open>stripTags\<close>, and the tag reconstructor.
  \<^verbatim>\<open>lib/rebuild-tag\<close> is not among the sources, so it is a parameter: it receives the
  name, the attributes when they are passed and the phase when it is passed (the close
  handler passes the name only).
\<close>

record config =
  tagTable :: "string \<Rightarrow> lookup"
  stripTags :: bool
  rebuildTag :: "string \<Rightarrow> (string \<times> string) list option \<Rightarrow> phase option \<Rightarrow> string"

subsection \<open>The render state\<close>

record state =
  stack :: "string list"
  splicePos :: nat
  spliceStack :: "string list"
  listStack :: "string list"
  trimNL :: bool
  tagStack :: "string list"
  ignoreClose :: bool
  indentStack :: "string list"
  tag :: lookup

text \<open>
  What a handler leaves behind: the state it returns with, or the exception it throws
  together with the state at the throw (the assignments made before it stay in place).
\<close>

type_synonym outcome = "(error \<times> state) + state"

definition state_of :: "outcome \<Rightarrow> state" where
  "state_of r = (case r of Inl (e, s) \<Rightarrow> s | Inr s \<Rightarrow> s)"

definition init :: state where
  "init = \<lparr>stack = [], splicePos = 0, spliceStack = [], listStack = [], trimNL = False,
     tagStack = [], ignoreClose = False, indentStack = [], tag = Absent\<rparr>"

definition push :: "string \<Rightarrow> state \<Rightarrow> state" where
  "push x s = s\<lparr>stack := stack s @ [x]\<rparr>"

text \<open>
  \<^verbatim>\<open>array.splice(pos, 0, x)\<close> inserts \<open>x\<close> before index \<open>pos\<close>; a position beyond
  the end inserts at the end, which is what \<open>take\<close> and \<open>drop\<close> do as well.
\<close>

definition splice :: "nat \<Rightarrow> 'a \<Rightarrow> 'a list \<Rightarrow> 'a list" where
  "splice pos x xs = take pos xs @ [x] @ drop pos xs"

text \<open>
  \<^verbatim>\<open>last(this.listStack) + 'li'\<close>: string concatenation turns \<^verbatim>\<open>undefined\<close> into
  the text \<^verbatim>\<open>undefined\<close>.
\<close>

definition li_name :: "string list \<Rightarrow> string" where
  "li_name ls = (case last_opt ls of None \<Rightarrow> ''undefined'' | Some l \<Rightarrow> l) @ ''li''"

text \<open>
  The name a tag is looked up under: both handlers replace \<^verbatim>\<open>li\<close> by the top of
  the list stack followed by \<^verbatim>\<open>li\<close>.
\<close>

definition effective_name :: "string list \<Rightarrow> string \<Rightarrow> string" where
  "effective_name ls origName = (if origName = ''li'' then li_name ls else origName)"

text \<open>A string is truthy when it is present and not empty.\<close>

definition truthy :: "string option \<Rightarrow> bool" where
  "truthy v = (case v of None \<Rightarrow> False | Some str \<Rightarrow> str \<noteq> [])"

subsection \<open>The open handler\<close>

text \<open>
  The loop over \<^verbatim>\<open>Object.keys(this.tag.attrs)\<close>: \<open>name\<close> is the effective tag name,
  \<open>evattrs\<close> the attributes of the event.
\<close>

fun render_attrs ::
  "string \<Rightarrow> (string \<times> string) list \<Rightarrow> (string \<times> (string \<times> string)) list \<Rightarrow> state \<Rightarrow> state"
where
  "render_attrs name evattrs [] s = s"
| "render_attrs name evattrs ((key, (opn, cls)) # rest) s =
     render_attrs name evattrs rest
       (let s1 = push opn s;
            s2 = (if key = ''text''
                  then s1\<lparr>splicePos := length (stack s1), spliceStack := spliceStack s1 @ [name]\<rparr>
                  else (case map_of evattrs key of
                          Some v \<Rightarrow> push v s1
                        | None \<Rightarrow> s1))
        in push cls s2)"

text \<open>
  The indent prefix (lines 130 to 134). The top of the indent stack is looked up in the
  dialect; reading \<^verbatim>\<open>indent\<close> of \<^verbatim>\<open>undefined\<close> is a TypeError. Only names
  whose entry has a non-empty indent unit are ever pushed on the indent stack; for any
  other value found, the model takes the empty unit.
\<close>

definition indent_prefix :: "config \<Rightarrow> state \<Rightarrow> outcome" where
  "indent_prefix cfg s =
     (case last_opt (indentStack s) of
        None \<Rightarrow> Inr s
      | Some topName \<Rightarrow>
          (case tagTable cfg topName of
             Absent \<Rightarrow> Inl (TypeError, s)
           | Entry indentTag \<Rightarrow>
               Inr (push (repeat (case indent indentTag of None \<Rightarrow> [] | Some u \<Rightarrow> u)
                            (length (indentStack s))) s)
           | Inherited \<Rightarrow> Inr (push (repeat [] (length (indentStack s))) s)))"

text \<open>
  The branch of the open handler for a truthy lookup result, in three parts. First the
  bookkeeping and the block spacing (lines 102 to 125); \<open>blk\<close> is the truth value of
  \<^verbatim>\<open>this.tag.block\<close>.
\<close>

definition open_spacing :: "state \<Rightarrow> string \<Rightarrow> bool \<Rightarrow> state" where
  "open_spacing s name blk =
     (let s1 = s\<lparr>tagStack := tagStack s @ [name]\<rparr>;
          s2 = (if name = ''ol'' \<or> name = ''ul''
                then s1\<lparr>listStack := listStack s1 @ [name]\<rparr> else s1);
          s3 = (if name = ''code'' \<and> last_opt (tagStack s2) = Some ''pre''
                then s2\<lparr>ignoreClose := True, stack := butlast (stack s2)\<rparr> else s2)
      in if blk \<and> last_opt (stack s3) \<noteq> Some [nl, nl] \<and> length (stack s3) > 0
         then (if length (indentStack s3) = 0 then push [nl, nl] s3 else push [nl] s3)
         else s3)"

text \<open>
  Last, for an entry of the dialect, the indent stack, the open marker and the
  attributes (lines 136 to 169).
\<close>

definition open_markers ::
  "state \<Rightarrow> string \<Rightarrow> tagspec \<Rightarrow> (string \<times> string) list \<Rightarrow> state"
where
  "open_markers s name t evattrs =
     (let s1 = (if truthy (indent t)
                then (if length (listStack s) \<noteq> 1
                      then s\<lparr>indentStack := indentStack s @ [name]\<rparr> else s)
                else s);
          s2 = (if length (open t) > 0
                then (if length (spliceStack s1) > 0
                      then s1\<lparr>stack := splice (splicePos s1) (open t) (stack s1),
                              splicePos := splicePos s1 + 1\<rparr>
                      else push (open t) s1)
                else s1)
      in case attrs t of
           None \<Rightarrow> s2
         | Some kvs \<Rightarrow> render_attrs name evattrs kvs s2)"

text \<open>The whole branch for an entry, with the indent prefix in between.\<close>

definition open_mapped ::
  "config \<Rightarrow> state \<Rightarrow> string \<Rightarrow> tagspec \<Rightarrow> (string \<times> string) list \<Rightarrow> outcome"
where
  "open_mapped cfg s name t evattrs =
     (case indent_prefix cfg (open_spacing s name (block t)) of
        Inl e \<Rightarrow> Inl e
      | Inr s1 \<Rightarrow> Inr (open_markers s1 name t evattrs))"

text \<open>
  The same branch for an inherited property: \<^verbatim>\<open>block\<close> and \<^verbatim>\<open>indent\<close> are
  \<^verbatim>\<open>undefined\<close>, and \<^verbatim>\<open>this.tag.open.length\<close> (line 142) reads \<^verbatim>\<open>length\<close> of
  \<^verbatim>\<open>undefined\<close>, a TypeError.
\<close>

definition open_inherited :: "config \<Rightarrow> state \<Rightarrow> string \<Rightarrow> outcome" where
  "open_inherited cfg s name =
     (case indent_prefix cfg (open_spacing s name False) of
        Inl e \<Rightarrow> Inl e
      | Inr s1 \<Rightarrow> Inl (TypeError, s1))"

definition onopentag ::
  "config \<Rightarrow> state \<Rightarrow> string \<Rightarrow> (string \<times> string) list \<Rightarrow> outcome"
where
  "onopentag cfg s origName evattrs =
     (let s1 = (if origName = ''li'' then s\<lparr>trimNL := True\<rparr> else s);
          name = effective_name (listStack s) origName;
          s2 = s1\<lparr>tag := tagTable cfg name\<rparr>
      in case tagTable cfg name of
           Entry t \<Rightarrow> open_mapped cfg s2 name t evattrs
         | Inherited \<Rightarrow> open_inherited cfg s2 name
         | Absent \<Rightarrow>
             Inr (if \<not> stripTags cfg
                  then push (rebuildTag cfg origName (Some evattrs) (Some PhaseOpen)) s2
                  else s2))"

subsection \<open>The text handler\<close>

text \<open>
  \<^verbatim>\<open>this.text\<close>: neither the constructor, nor \<^verbatim>\<open>_init\<close>, nor any handler assigns a
  property of that name, so reading it yields \<^verbatim>\<open>undefined\<close>.
\<close>

definition this_text :: "string option" where
  "this_text = None"

definition strip_nl :: "string \<Rightarrow> string" where
  "strip_nl text = filter (\<lambda>c. c \<noteq> nl) text"

text \<open>\<^verbatim>\<open>last(this.stack).match(/\n$/)\<close>, reached only behind \<^verbatim>\<open>this.text === '\n'\<close>.\<close>

definition ends_nl :: "string option \<Rightarrow> bool" where
  "ends_nl v = (case v of None \<Rightarrow> False | Some f \<Rightarrow> f \<noteq> [] \<and> last f = nl)"

text \<open>
  \<^verbatim>\<open>this.tag.close !== false\<close> holds for every entry, \<^verbatim>\<open>close\<close> being a string.
  For an inherited property \<^verbatim>\<open>this.tag.block\<close> is \<^verbatim>\<open>undefined\<close>.
\<close>

definition ontext :: "state \<Rightarrow> string \<Rightarrow> state" where
  "ontext s text =
     (let s1 = (case tag s of
                  Absent \<Rightarrow> s
                | Entry t \<Rightarrow>
                    if block t \<and> last_opt (stack s) \<noteq> Some (open t) then push (open t) s else s
                | Inherited \<Rightarrow> s)
      in if length (spliceStack s1) > 0
         then s1\<lparr>stack := splice (splicePos s1) text (stack s1), splicePos := splicePos s1 + 1\<rparr>
         else push (if trimNL s1 \<or> (this_text = Some [nl] \<and> ends_nl (last_opt (stack s1)))
                    then strip_nl text else text) s1)"

subsection \<open>The close handler\<close>

text \<open>The close marker of an entry (lines 230 to 236).\<close>

definition close_marker :: "state \<Rightarrow> tagspec \<Rightarrow> state" where
  "close_marker s t =
     (if \<not> ignoreClose s \<and> length (close t) > 0
      then (if length (spliceStack s) > 0
            then s\<lparr>stack := splice (splicePos s) (close t) (stack s)\<rparr>
            else push (close t) s)
      else s)"

text \<open>
  The stacks and the block spacing (lines 238 to 260); \<open>ind\<close> and \<open>blk\<close> are the
  truth values of \<^verbatim>\<open>tag.indent\<close> and \<^verbatim>\<open>tag.block\<close>.
\<close>

definition close_stacks :: "state \<Rightarrow> string \<Rightarrow> bool \<Rightarrow> bool \<Rightarrow> state" where
  "close_stacks s name ind blk =
     (let s1 = (if ind then s\<lparr>indentStack := butlast (indentStack s)\<rparr> else s);
          s2 = (if last_opt (spliceStack s1) = Some name
                then s1\<lparr>spliceStack := butlast (spliceStack s1)\<rparr> else s1);
          s3 = (if blk
                then (if length (indentStack s2) < 1 then push [nl, nl] s2 else push [nl] s2)
                else s2)
      in if last_opt (tagStack s3) = Some name
         then s3\<lparr>tagStack := butlast (tagStack s3)\<rparr> else s3)"

definition close_mapped :: "state \<Rightarrow> string \<Rightarrow> tagspec \<Rightarrow> state" where
  "close_mapped s name t =
     close_stacks (close_marker s t) name (truthy (indent t)) (block t)"

text \<open>The reset of the close-suppression flag (lines 268 to 270).\<close>

definition reset_ignoreClose :: "state \<Rightarrow> state" where
  "reset_ignoreClose s = (if ignoreClose s then s\<lparr>ignoreClose := False\<rparr> else s)"

text \<open>
  The list bookkeeping at the start of the close handler (lines 216 to 225). The name
  the handler then looks up is the effective name over the list stack it leaves.
\<close>

definition close_prepare :: "state \<Rightarrow> string \<Rightarrow> state" where
  "close_prepare s origName =
     (let s1 = (if origName = ''ol'' \<or> origName = ''ul''
                then s\<lparr>listStack := butlast (listStack s)\<rparr> else s)
      in if origName = ''li'' then s1\<lparr>trimNL := False\<rparr> else s1)"

text \<open>
  For an inherited property the condition of line 230 reads \<^verbatim>\<open>tag.close.length\<close>
  unless \<^verbatim>\<open>ignoreClose\<close> is set: \<^verbatim>\<open>length\<close> of \<^verbatim>\<open>undefined\<close>, a TypeError.
\<close>

definition onclosetag :: "config \<Rightarrow> state \<Rightarrow> string \<Rightarrow> outcome" where
  "onclosetag cfg s origName =
     (let s2 = close_prepare s origName;
          name = effective_name (listStack s2) origName
      in case tagTable cfg name of
           Entry t \<Rightarrow> Inr (reset_ignoreClose (close_mapped s2 name t))
         | Inherited \<Rightarrow>
             if \<not> ignoreClose s2 then Inl (TypeError, s2)
             else Inr (reset_ignoreClose (close_stacks s2 name False False))
         | Absent \<Rightarrow>
             Inr (reset_ignoreClose
                    (if \<not> stripTags cfg then push (rebuildTag cfg origName None None) s2
                     else s2)))"

subsection \<open>Events and whole conversions\<close>

text \<open>What the tokenizer delivers to the three handlers.\<close>

datatype event =
    Open string "(string \<times> string) list"
  | Text string
  | Close string

definition handle :: "config \<Rightarrow> state \<Rightarrow> event \<Rightarrow> outcome" where
  "handle cfg s ev =
     (case ev of
        Open name evattrs \<Rightarrow> onopentag cfg s name evattrs
      | Text text \<Rightarrow> Inr (ontext s text)
      | Close name \<Rightarrow> onclosetag cfg s name)"

text \<open>An exception thrown by a handler ends the conversion.\<close>

fun run :: "config \<Rightarrow> state \<Rightarrow> event list \<Rightarrow> outcome" where
  "run cfg s [] = Inr s"
| "run cfg s (ev # evs) =
     (case handle cfg s ev of
        Inl e \<Rightarrow> Inl e
      | Inr s' \<Rightarrow> run cfg s' evs)"

text \<open>
  \<^verbatim>\<open>_closeUnclosedTags\<close>: pop a name, and while the popped value is truthy (a name
  other than the empty string; \<^verbatim>\<open>undefined\<close> once the stack is empty) hand it to the
  close handler and pop again.
\<close>

function closeUnclosedTags :: "config \<Rightarrow> state \<Rightarrow> outcome" where
  "closeUnclosedTags cfg s =
     (if tagStack s = [] then Inr s
      else (let popped = last (tagStack s);
                s1 = s\<lparr>tagStack := butlast (tagStack s)\<rparr>
            in if popped = [] then Inr s1
               else (case onclosetag cfg s1 popped of
                       Inl e \<Rightarrow> Inl e
                     | Inr s2 \<Rightarrow> closeUnclosedTags cfg s2)))"
  by pat_completeness auto
termination
proof (relation "measure (\<lambda>(cfg, s). length (tagStack s))")
  show "wf (measure (\<lambda>(cfg, s). length (tagStack s)))"
    by simp
next
  fix cfg :: config and s :: state and popped s1 s2
  assume ne: "tagStack s \<noteq> []"
    and s1: "s1 = s\<lparr>tagStack := butlast (tagStack s)\<rparr>"
    and ret: "onclosetag cfg s1 popped = Inr s2"
  have stacks: "length (tagStack (close_stacks s' n i b)) \<le> length (tagStack s')" for s' n i b
    by (simp add: close_stacks_def Let_def push_def)
  have marker: "tagStack (close_marker s' t) = tagStack s'" for s' t
    by (simp add: close_marker_def push_def)
  have reset: "tagStack (reset_ignoreClose s') = tagStack s'" for s'
    by (simp add: reset_ignoreClose_def)
  define s0 where "s0 = close_prepare s1 popped"
  have s0: "tagStack s0 = tagStack s1"
    by (simp add: s0_def close_prepare_def Let_def)
  have "length (tagStack s2) \<le> length (tagStack s0)"
    using ret stacks [of "close_marker s0 t" for t] stacks [of s0]
    by (auto simp: onclosetag_def Let_def s0_def [symmetric] close_mapped_def marker reset
        push_def split: lookup.splits if_splits)
  also have "\<dots> < length (tagStack s)"
    using ne s1 s0 by (cases "tagStack s" rule: rev_cases) simp_all
  finally show "((cfg, s2), (cfg, s)) \<in> measure (\<lambda>(cfg, s). length (tagStack s))"
    by simp
qed

declare closeUnclosedTags.simps [simp del]

text \<open>
  The two replacements of \<^verbatim>\<open>write\<close>. A global regular-expression replace scans once
  from left to right and continues behind each match, so matches do not overlap.
  \<open>collapse_spaces\<close> is \<^verbatim>\<open>replace(/\ \ /g, ' ')\<close> and \<open>strip_space_nl\<close> is
  \<^verbatim>\<open>replace(/\ \n/g, '\n')\<close>.
\<close>

fun collapse_spaces :: "string \<Rightarrow> string" where
  "collapse_spaces (a # b # cs) =
     (if a = CHR '' '' \<and> b = CHR '' '' then CHR '' '' # collapse_spaces cs
      else a # collapse_spaces (b # cs))"
| "collapse_spaces cs = cs"

fun strip_space_nl :: "string \<Rightarrow> string" where
  "strip_space_nl (a # b # cs) =
     (if a = CHR '' '' \<and> b = nl then nl # strip_space_nl cs
      else a # strip_space_nl (b # cs))"
| "strip_space_nl cs = cs"

definition finalize :: "string list \<Rightarrow> string" where
  "finalize frags = strip_space_nl (collapse_spaces (concat frags))"

text \<open>
  \<^verbatim>\<open>write\<close>, from the events the parser delivers for the input up to its end. The
  handlers run from the reset state and the tags left on the tag stack are closed:
  \<open>final_state\<close> is the state whose buffer is then joined and cleaned up. (The state
  is reset afterwards; a conversion starts from \<open>init\<close>.)
\<close>

definition final_state :: "config \<Rightarrow> event list \<Rightarrow> outcome" where
  "final_state cfg evs =
     (case run cfg init evs of
        Inl e \<Rightarrow> Inl e
      | Inr s \<Rightarrow> if length (tagStack s) > 0 then closeUnclosedTags cfg s else Inr s)"

definition write_events :: "config \<Rightarrow> event list \<Rightarrow> (error \<times> state) + string" where
  "write_events cfg evs =
     (case final_state cfg evs of
        Inl e \<Rightarrow> Inl e
      | Inr s \<Rightarrow> Inr (finalize (stack s)))"

text \<open>
  A converter made by \<^verbatim>\<open>new DrSax()\<close>: the default dialect and no \<^verbatim>\<open>stripTags\<close>
  option, for any tag reconstructor.
\<close>

definition default_config ::
  "(string \<Rightarrow> (string \<times> string) list option \<Rightarrow> phase option \<Rightarrow> string) \<Rightarrow> config"
where
  "default_config rb = \<lparr>tagTable = defaultDialect, stripTags = False, rebuildTag = rb\<rparr>"

subsection \<open>Deferred insertion and the order of the fragments\<close>

text \<open>An entry defers its text when its attributes list the key \<^verbatim>\<open>text\<close>.\<close>

definition has_text_attr :: "tagspec \<Rightarrow> bool" where
  "has_text_attr t =
     (case attrs t of None \<Rightarrow> False | Some kvs \<Rightarrow> ''text'' \<in> set (map fst kvs))"

text \<open>
  The events that may arrive between the open event of a deferring tag, looked up under
  \<open>nm\<close>, and its text without ending or replacing its deferral: text events, close
  events whose effective name is not \<open>nm\<close>, and open events of names that are not
  entries or are entries that do not defer. \<open>inner\<close> follows a run of such events
  through the handlers and requires each of them to return.
\<close>

definition inner_event :: "config \<Rightarrow> string \<Rightarrow> state \<Rightarrow> event \<Rightarrow> bool" where
  "inner_event cfg nm s ev =
     (case ev of
        Open name evattrs \<Rightarrow>
          (case tagTable cfg (effective_name (listStack s) name) of
             Entry t \<Rightarrow> \<not> has_text_attr t
           | Absent \<Rightarrow> True
           | Inherited \<Rightarrow> True)
      | Text text \<Rightarrow> True
      | Close name \<Rightarrow> effective_name (listStack s) name \<noteq> nm)"

fun inner :: "config \<Rightarrow> string \<Rightarrow> state \<Rightarrow> event list \<Rightarrow> bool" where
  "inner cfg nm s [] = True"
| "inner cfg nm s (ev # evs) =
     (inner_event cfg nm s ev \<and>
      (case handle cfg s ev of
         Inl e \<Rightarrow> False
       | Inr s' \<Rightarrow> inner cfg nm s' evs))"

text \<open>
  What the handlers do to the output buffer and the splice position, as a relation
  between an earlier and a later state: fragments are appended, inserted at the splice
  position (which then advances or stays), and the position is set to the end of the
  buffer when a deferral starts. The flag says whether a deferral may start.
\<close>

inductive evolves :: "bool \<Rightarrow> state \<Rightarrow> state \<Rightarrow> bool" for d :: bool and s :: state where
  same: "stack s' = stack s \<Longrightarrow> splicePos s' = splicePos s \<Longrightarrow> evolves d s s'"
| pushed: "evolves d s s1 \<Longrightarrow> stack s' = stack s1 @ [x] \<Longrightarrow> splicePos s' = splicePos s1 \<Longrightarrow>
    evolves d s s'"
| spliced: "evolves d s s1 \<Longrightarrow> stack s' = splice (splicePos s1) x (stack s1) \<Longrightarrow>
    splicePos s' = splicePos s1 + 1 \<Longrightarrow> evolves d s s'"
| spliced_stay: "evolves d s s1 \<Longrightarrow> stack s' = splice (splicePos s1) x (stack s1) \<Longrightarrow>
    splicePos s' = splicePos s1 \<Longrightarrow> evolves d s s'"
| deferred: "evolves d s s1 \<Longrightarrow> d \<Longrightarrow> stack s' = stack s1 \<Longrightarrow>
    splicePos s' = length (stack s1) \<Longrightarrow> evolves d s s'"

text \<open>
  Two shapes of the buffer \<open>xs\<close> with the splice position \<open>p\<close>. While the deferral
  of a tag is active, the fragments \<open>blk\<close> that follow its text are in the buffer and
  the position is in front of them, at least \<open>k\<close>. Once the text is inserted, it
  stands in front of \<open>blk\<close>, with at least \<open>k\<close> fragments before it, and the position
  is in front of \<open>blk\<close> or behind it.
\<close>

definition cursor_before :: "nat \<Rightarrow> string list \<Rightarrow> string list \<Rightarrow> nat \<Rightarrow> bool" where
  "cursor_before k blk xs p = (k \<le> p \<and> (\<exists>a b. xs = a @ blk @ b \<and> p \<le> length a))"

definition text_placed ::
  "nat \<Rightarrow> string \<Rightarrow> string list \<Rightarrow> string list \<Rightarrow> nat \<Rightarrow> bool"
where
  "text_placed k txt blk xs p =
     (\<exists>pre mid post. xs = pre @ txt # mid @ blk @ post \<and> k \<le> length pre \<and>
        (p \<le> length pre + 1 + length mid \<or> length pre + 1 + length mid + length blk \<le> p))"

text \<open>
  The text \<open>txt\<close> stands in front of the contiguous fragments \<open>blk\<close> in the buffer
  \<open>xs\<close>, with more than \<open>n\<close> fragments before it.
\<close>

definition text_before_href :: "nat \<Rightarrow> string \<Rightarrow> string list \<Rightarrow> string list \<Rightarrow> bool" where
  "text_before_href n txt blk xs =
     (\<exists>pre mid post. xs = pre @ txt # mid @ blk @ post \<and> n < length pre)"

subsection \<open>The invariant of the tag and indent stacks\<close>

text \<open>
  A name is indentable when the dialect maps it to an entry with a truthy
  \<^verbatim>\<open>indent\<close>. The invariant: every name on the indent stack is indentable, and the
  indent stack is no longer than the indentable part of the tag stack.
\<close>

definition indentable :: "config \<Rightarrow> string \<Rightarrow> bool" where
  "indentable cfg n =
     (case tagTable cfg n of Entry t \<Rightarrow> truthy (indent t) | Absent \<Rightarrow> False | Inherited \<Rightarrow> False)"

definition stacks_inv :: "config \<Rightarrow> state \<Rightarrow> bool" where
  "stacks_inv cfg s =
     (list_all (indentable cfg) (indentStack s) \<and>
      length (indentStack s) \<le> length (filter (indentable cfg) (tagStack s)))"

subsection \<open>Concrete inputs\<close>

text \<open>
  Modelled from the spec: \<^verbatim>\<open>lib/rebuild-tag\<close> is not among the sources. The spec has
  it rebuild the literal \<^verbatim>\<open><name attr="value" ...>\<close> of an opening tag and the
  literal \<^verbatim>\<open></name>\<close> of a closing tag. It instantiates the parameter
  \<open>rebuildTag\<close> where a closed term is evaluated; the general statements hold for
  every reconstructor.
\<close>

definition reconstruct ::
  "string \<Rightarrow> (string \<times> string) list option \<Rightarrow> phase option \<Rightarrow> string"
where
  "reconstruct name evattrs ph =
     (case ph of
        Some PhaseOpen \<Rightarrow>
          ''<'' @ name @
          concat (map (\<lambda>(k, v). '' '' @ k @ ''='' @ [CHR 0x22] @ v @ [CHR 0x22])
                    (case evattrs of None \<Rightarrow> [] | Some kvs \<Rightarrow> kvs)) @ ''>''
      | None \<Rightarrow> ''</'' @ name @ ''>'')"

text \<open>
  The state inside the first item of an ordered list, that is after the events
  \<^verbatim>\<open>open(ol)\<close>, \<^verbatim>\<open>open(li)\<close>.
\<close>

definition list_item_state :: state where
  "list_item_state = init\<lparr>stack := [''1. ''], listStack := [''ol''], trimNL := True,
     tagStack := [''ol'', ''olli''], tag := defaultDialect ''olli''\<rparr>"

lemmas model_defs = write_events_def final_state_def handle_def onopentag_def open_mapped_def open_inherited_def
  open_spacing_def open_markers_def indent_prefix_def ontext_def onclosetag_def close_mapped_def
  close_marker_def close_stacks_def close_prepare_def reset_ignoreClose_def effective_name_def li_name_def
  last_opt_def truthy_def push_def splice_def init_def default_config_def defaultDialect_def
  dialect_entries_def object_prototype_names_def plain_def this_text_def ends_nl_def
  strip_nl_def repeat_def finalize_def nl_def tab_def Let_def

section \<open>Properties\<close>

subsection \<open>How the handlers change the buffer\<close>

lemma evolves_refl: "evolves d s s"
  by (rule evolves.same) simp_all

lemma evolves_cong:
  assumes "evolves d s s1" and "stack s' = stack s1" and "splicePos s' = splicePos s1"
  shows "evolves d s s'"
  using assms
  by (cases rule: evolves.cases)
     (auto intro: evolves.same evolves.pushed evolves.spliced evolves.spliced_stay
        evolves.deferred)

lemma evolves_trans:
  assumes "evolves d s1 s2" and "evolves d s s1"
  shows "evolves d s s2"
  using assms
proof (induction rule: evolves.induct)
  case (same s')
  then show ?case by (auto intro: evolves_cong)
next
  case (pushed sa s' x)
  then show ?case by (auto intro: evolves.pushed)
next
  case (spliced sa s' x)
  then show ?case by (auto intro: evolves.spliced)
next
  case (spliced_stay sa s' x)
  then show ?case by (auto intro: evolves.spliced_stay)
next
  case (deferred sa s')
  then show ?case by (auto intro: evolves.deferred)
qed

lemma evolves_mono:
  assumes "evolves False s s'"
  shows "evolves d s s'"
  using assms
  by (induction rule: evolves.induct)
     (auto intro: evolves.same evolves.pushed evolves.spliced evolves.spliced_stay)

lemma evolves_push: "evolves d s0 s \<Longrightarrow> evolves d s0 (push x s)"
  by (erule evolves.pushed) (simp_all add: push_def)

lemma render_attrs_evolves:
  assumes "evolves d s0 s" and "d \<or> ''text'' \<notin> set (map fst kvs)"
  shows "evolves d s0 (render_attrs name evattrs kvs s)"
  using assms
proof (induction kvs arbitrary: s)
  case Nil
  then show ?case by simp
next
  case (Cons kv rest)
  obtain key opn cls where kv: "kv = (key, (opn, cls))"
    by (cases kv) auto
  define s1 where "s1 = push opn s"
  define s2 where "s2 = (if key = ''text''
      then s1\<lparr>splicePos := length (stack s1), spliceStack := spliceStack s1 @ [name]\<rparr>
      else (case map_of evattrs key of Some v \<Rightarrow> push v s1 | None \<Rightarrow> s1))"
  have e1: "evolves d s0 s1"
    unfolding s1_def using Cons.prems(1) by (rule evolves_push)
  have e2: "evolves d s0 s2"
  proof (cases "key = ''text''")
    case True
    with Cons.prems(2) kv have d by simp
    from evolves.deferred [OF e1 this, of "s1\<lparr>splicePos := length (stack s1),
        spliceStack := spliceStack s1 @ [name]\<rparr>"] True
    show ?thesis by (simp add: s2_def)
  next
    case False
    with e1 show ?thesis
      by (auto simp: s2_def intro: evolves_push split: option.split)
  qed
  have e3: "evolves d s0 (push cls s2)"
    using e2 by (rule evolves_push)
  have "d \<or> ''text'' \<notin> set (map fst rest)"
    using Cons.prems(2) by auto
  from Cons.IH [OF e3 this] show ?case
    unfolding kv s1_def s2_def by (simp add: Let_def)
qed

lemma render_attrs_spliceStack:
  "''text'' \<notin> set (map fst kvs) \<Longrightarrow>
   spliceStack (render_attrs name evattrs kvs s) = spliceStack s"
  by (induction name evattrs kvs s rule: render_attrs.induct)
     (auto simp: Let_def push_def split: option.split)

lemma evolves_push_or_same:
  assumes "evolves d s0 s" and "splicePos s' = splicePos s"
    and "stack s' = stack s \<or> (\<exists>x. stack s' = stack s @ [x])"
  shows "evolves d s0 s'"
  using assms by (auto intro: evolves_cong evolves.pushed)

lemma last_opt_snoc: "last_opt (xs @ [x]) = Some x"
  by (simp add: last_opt_def)

lemma open_spacing_evolves:
  assumes "evolves d s0 s"
  shows "evolves d s0 (open_spacing s name blk)"
  using assms
  by (rule evolves_push_or_same)
     (auto simp: open_spacing_def Let_def push_def last_opt_snoc)

lemma open_spacing_spliceStack: "spliceStack (open_spacing s name blk) = spliceStack s"
  by (simp add: open_spacing_def Let_def push_def)

lemma indent_prefix_evolves:
  assumes "indent_prefix cfg s = Inr s'" and "evolves d s0 s"
  shows "evolves d s0 s'"
  using assms
  by (auto simp: indent_prefix_def split: option.splits lookup.splits intro: evolves_push)

lemma indent_prefix_spliceStack:
  "indent_prefix cfg s = Inr s' \<Longrightarrow> spliceStack s' = spliceStack s"
  by (auto simp: indent_prefix_def push_def split: option.splits lookup.splits)

lemma open_markers_evolves:
  assumes "evolves d s0 s" and "d \<or> \<not> has_text_attr t"
  shows "evolves d s0 (open_markers s name t evattrs)"
proof -
  define s1 where "s1 = (if truthy (indent t)
      then (if length (listStack s) \<noteq> 1
            then s\<lparr>indentStack := indentStack s @ [name]\<rparr> else s)
      else s)"
  define s2 where "s2 = (if length (open t) > 0
      then (if length (spliceStack s1) > 0
            then s1\<lparr>stack := splice (splicePos s1) (open t) (stack s1),
                    splicePos := splicePos s1 + 1\<rparr>
            else push (open t) s1)
      else s1)"
  have "stack s1 = stack s" "splicePos s1 = splicePos s"
    by (simp_all add: s1_def)
  with assms(1) have e1: "evolves d s0 s1"
    by (rule evolves_cong)
  have e2: "evolves d s0 s2"
  proof (cases "length (open t) > 0 \<and> length (spliceStack s1) > 0")
    case True
    from evolves.spliced [OF e1, of "s1\<lparr>stack := splice (splicePos s1) (open t) (stack s1),
        splicePos := splicePos s1 + 1\<rparr>" "open t"] True
    show ?thesis by (simp add: s2_def)
  next
    case False
    with e1 show ?thesis
      by (auto simp: s2_def intro: evolves_push)
  qed
  have unfold: "open_markers s name t evattrs =
      (case attrs t of None \<Rightarrow> s2 | Some kvs \<Rightarrow> render_attrs name evattrs kvs s2)"
    unfolding open_markers_def s1_def s2_def Let_def by (rule refl)
  show ?thesis
  proof (cases "attrs t")
    case None
    with e2 show ?thesis by (simp add: unfold)
  next
    case (Some kvs)
    with assms(2) have "d \<or> ''text'' \<notin> set (map fst kvs)"
      by (simp add: has_text_attr_def)
    from render_attrs_evolves [OF e2 this] Some show ?thesis
      by (simp add: unfold)
  qed
qed

lemma open_markers_spliceStack:
  "\<not> has_text_attr t \<Longrightarrow> spliceStack (open_markers s name t evattrs) = spliceStack s"
  by (auto simp: open_markers_def Let_def push_def has_text_attr_def render_attrs_spliceStack
      split: option.split)

lemma onopentag_evolves:
  assumes "onopentag cfg s name evattrs = Inr s'"
    and "d \<or> (\<forall>t. tagTable cfg (effective_name (listStack s) name) = Entry t \<longrightarrow>
           \<not> has_text_attr t)"
  shows "evolves d s s'"
proof (cases "tagTable cfg (effective_name (listStack s) name)")
  case Absent
  have "evolves d s (s\<lparr>trimNL := b, tag := l\<rparr>)" "evolves d s (s\<lparr>tag := l\<rparr>)" for b l
    by (rule evolves.same; simp)+
  with assms(1) Absent show ?thesis
    by (auto simp: onopentag_def Let_def split: if_splits intro: evolves_push)
next
  case (Entry t)
  define s2 where "s2 = (if name = ''li'' then s\<lparr>trimNL := True\<rparr> else s)\<lparr>tag := Entry t\<rparr>"
  have e0: "evolves d s s2"
    by (rule evolves.same) (simp_all add: s2_def)
  from assms(1) Entry obtain s3 where
    ip: "indent_prefix cfg (open_spacing s2 (effective_name (listStack s) name) (block t)) = Inr s3"
    and s': "s' = open_markers s3 (effective_name (listStack s) name) t evattrs"
    by (auto simp: onopentag_def Let_def open_mapped_def s2_def split: sum.splits)
  have "evolves d s s3"
    using ip open_spacing_evolves [OF e0] by (rule indent_prefix_evolves)
  moreover have "d \<or> \<not> has_text_attr t"
    using assms(2) Entry by simp
  ultimately show ?thesis
    unfolding s' by (rule open_markers_evolves)
next
  case Inherited
  with assms(1) show ?thesis
    by (auto simp: onopentag_def Let_def open_inherited_def split: sum.splits)
qed

lemma onopentag_spliceStack:
  assumes "onopentag cfg s name evattrs = Inr s'"
    and "\<forall>t. tagTable cfg (effective_name (listStack s) name) = Entry t \<longrightarrow> \<not> has_text_attr t"
  shows "spliceStack s' = spliceStack s"
proof (cases "tagTable cfg (effective_name (listStack s) name)")
  case Absent
  with assms(1) show ?thesis
    by (auto simp: onopentag_def Let_def push_def split: if_splits)
next
  case (Entry t)
  define s2 where "s2 = (if name = ''li'' then s\<lparr>trimNL := True\<rparr> else s)\<lparr>tag := Entry t\<rparr>"
  from assms(1) Entry obtain s3 where
    ip: "indent_prefix cfg (open_spacing s2 (effective_name (listStack s) name) (block t)) = Inr s3"
    and s': "s' = open_markers s3 (effective_name (listStack s) name) t evattrs"
    by (auto simp: onopentag_def Let_def open_mapped_def s2_def split: sum.splits)
  have "spliceStack s3 = spliceStack s"
    using indent_prefix_spliceStack [OF ip] by (simp add: open_spacing_spliceStack s2_def)
  moreover have "\<not> has_text_attr t"
    using assms(2) Entry by simp
  ultimately show ?thesis
    by (simp add: s' open_markers_spliceStack)
next
  case Inherited
  with assms(1) show ?thesis
    by (auto simp: onopentag_def Let_def open_inherited_def split: sum.splits)
qed

lemma ontext_evolves: "evolves d s (ontext s text)"
proof -
  define s1 where "s1 = (case tag s of
      Absent \<Rightarrow> s
    | Entry t \<Rightarrow>
        if block t \<and> last_opt (stack s) \<noteq> Some (open t) then push (open t) s else s
    | Inherited \<Rightarrow> s)"
  have e1: "evolves d s s1"
    by (auto simp: s1_def intro: evolves_refl evolves_push split: lookup.split)
  have unfold: "ontext s text =
      (if length (spliceStack s1) > 0
       then s1\<lparr>stack := splice (splicePos s1) text (stack s1), splicePos := splicePos s1 + 1\<rparr>
       else push (if trimNL s1 \<or> (this_text = Some [nl] \<and> ends_nl (last_opt (stack s1)))
                  then strip_nl text else text) s1)"
    unfolding ontext_def s1_def Let_def by (rule refl)
  show ?thesis
  proof (cases "length (spliceStack s1) > 0")
    case True
    from evolves.spliced [OF e1, of "s1\<lparr>stack := splice (splicePos s1) text (stack s1),
        splicePos := splicePos s1 + 1\<rparr>" "text"] True
    show ?thesis by (simp add: unfold)
  next
    case False
    with e1 show ?thesis
      by (simp add: unfold evolves_push)
  qed
qed

lemma ontext_spliceStack: "spliceStack (ontext s text) = spliceStack s"
  by (simp add: ontext_def Let_def push_def split: lookup.split)

lemma close_marker_evolves:
  assumes "evolves d s0 s"
  shows "evolves d s0 (close_marker s t)"
proof (cases "\<not> ignoreClose s \<and> length (close t) > 0 \<and> length (spliceStack s) > 0")
  case True
  from evolves.spliced_stay [OF assms,
      of "s\<lparr>stack := splice (splicePos s) (close t) (stack s)\<rparr>" "close t"] True
  show ?thesis by (simp add: close_marker_def)
next
  case False
  with assms show ?thesis
    by (auto simp: close_marker_def intro: evolves_push)
qed

lemma close_stacks_evolves:
  assumes "evolves d s0 s"
  shows "evolves d s0 (close_stacks s name ind blk)"
  using assms
  by (rule evolves_push_or_same) (simp_all add: close_stacks_def Let_def push_def)

lemma reset_ignoreClose_evolves:
  assumes "evolves d s0 s"
  shows "evolves d s0 (reset_ignoreClose s)"
  using assms by (auto simp: reset_ignoreClose_def intro: evolves_cong)

lemma close_prepare_name:
  "effective_name (listStack (close_prepare s name)) name = effective_name (listStack s) name"
  by (simp add: close_prepare_def effective_name_def Let_def)

lemma onclosetag_InrE:
  assumes "onclosetag cfg s name = Inr s'"
  obtains
    (absent) "tagTable cfg (effective_name (listStack s) name) = Absent"
      and "s' = reset_ignoreClose
        (if \<not> stripTags cfg then push (rebuildTag cfg name None None) (close_prepare s name)
         else close_prepare s name)"
  | (entry) t where "tagTable cfg (effective_name (listStack s) name) = Entry t"
      and "s' = reset_ignoreClose
        (close_mapped (close_prepare s name) (effective_name (listStack s) name) t)"
  | (inherited) "tagTable cfg (effective_name (listStack s) name) = Inherited"
      and "ignoreClose (close_prepare s name)"
      and "s' = reset_ignoreClose
        (close_stacks (close_prepare s name) (effective_name (listStack s) name) False False)"
  using assms
  by (cases "tagTable cfg (effective_name (listStack s) name)")
     (auto simp: onclosetag_def Let_def close_prepare_name split: if_splits)

lemma close_prepare_evolves: "evolves d s (close_prepare s name)"
  by (rule evolves.same) (simp_all add: close_prepare_def Let_def)

lemma onclosetag_evolves:
  assumes "onclosetag cfg s name = Inr s'"
  shows "evolves d s s'"
  using assms
proof (cases rule: onclosetag_InrE)
  case absent
  then show ?thesis
    by (auto intro!: reset_ignoreClose_evolves evolves_push close_prepare_evolves)
next
  case (entry t)
  then show ?thesis
    by (auto simp: close_mapped_def
        intro!: reset_ignoreClose_evolves close_stacks_evolves close_marker_evolves
          close_prepare_evolves)
next
  case inherited
  then show ?thesis
    by (auto intro!: reset_ignoreClose_evolves close_stacks_evolves close_prepare_evolves)
qed

lemma close_stacks_spliceStack:
  "last_opt (spliceStack s) \<noteq> Some name \<Longrightarrow>
   spliceStack (close_stacks s name ind blk) = spliceStack s"
  by (simp add: close_stacks_def Let_def push_def)

lemma onclosetag_spliceStack:
  assumes "onclosetag cfg s name = Inr s'"
    and "last_opt (spliceStack s) \<noteq> Some (effective_name (listStack s) name)"
  shows "spliceStack s' = spliceStack s"
proof -
  have sp: "spliceStack (close_prepare s name) = spliceStack s"
    by (simp add: close_prepare_def Let_def)
  have cm: "spliceStack (close_marker (close_prepare s name) t) = spliceStack s" for t
    by (simp add: close_marker_def push_def sp)
  have rs: "spliceStack (reset_ignoreClose x) = spliceStack x" for x
    by (simp add: reset_ignoreClose_def)
  from assms(1) show ?thesis
  proof (cases rule: onclosetag_InrE)
    case absent
    then show ?thesis by (simp add: rs sp push_def)
  next
    case (entry t)
    then show ?thesis
      using assms(2) by (simp add: rs close_mapped_def close_stacks_spliceStack cm)
  next
    case inherited
    then show ?thesis
      using assms(2) by (simp add: rs close_stacks_spliceStack sp)
  qed
qed

lemma handle_evolves:
  assumes "handle cfg s ev = Inr s'"
  shows "evolves True s s'"
  using assms
  by (cases ev)
     (auto simp: handle_def ontext_evolves intro: onopentag_evolves onclosetag_evolves)

lemma run_evolves:
  assumes "run cfg s evs = Inr s'"
  shows "evolves True s s'"
  using assms
proof (induction evs arbitrary: s)
  case Nil
  then show ?case by (simp add: evolves_refl)
next
  case (Cons ev evs)
  then obtain s1 where h: "handle cfg s ev = Inr s1" and r: "run cfg s1 evs = Inr s'"
    by (auto split: sum.splits)
  from Cons.IH [OF r] handle_evolves [OF h] show ?case
    by (rule evolves_trans)
qed

lemma closeUnclosedTags_evolves:
  assumes "closeUnclosedTags cfg s = Inr s'"
  shows "evolves True s s'"
  using assms
proof (induction cfg s rule: closeUnclosedTags.induct)
  case (1 cfg s)
  show ?case
  proof (cases "tagStack s = []")
    case True
    with "1.prems" show ?thesis
      by (simp add: closeUnclosedTags.simps evolves_refl)
  next
    case False
    define s1 where "s1 = s\<lparr>tagStack := butlast (tagStack s)\<rparr>"
    have e1: "evolves True s s1"
      by (rule evolves.same) (simp_all add: s1_def)
    show ?thesis
    proof (cases "last (tagStack s) = []")
      case True
      with "1.prems" False e1 show ?thesis
        by (subst (asm) closeUnclosedTags.simps) (simp add: Let_def s1_def)
    next
      case ne: False
      from "1.prems" False ne obtain s2 where
        c: "onclosetag cfg s1 (last (tagStack s)) = Inr s2" and
        r: "closeUnclosedTags cfg s2 = Inr s'"
        by (subst (asm) closeUnclosedTags.simps)
           (auto simp: Let_def s1_def split: sum.splits)
      have "evolves True s2 s'"
        using "1.IH" [OF False refl refl ne _ r] c by (simp add: s1_def)
      moreover have "evolves True s s2"
        using onclosetag_evolves [OF c] e1 by (rule evolves_trans)
      ultimately show ?thesis by (rule evolves_trans)
    qed
  qed
qed

subsection \<open>The shapes of the buffer are kept\<close>

lemma splice_left: "p \<le> length a \<Longrightarrow> splice p x (a @ r) = splice p x a @ r"
  by (simp add: splice_def)

lemma splice_right: "length a \<le> p \<Longrightarrow> splice p x (a @ r) = a @ splice (p - length a) x r"
  by (simp add: splice_def)

lemma length_splice: "length (splice p x xs) = Suc (length xs)"
  by (simp add: splice_def)

lemma evolves_length:
  assumes "evolves d s s'"
  shows "length (stack s) \<le> length (stack s')"
  using assms by (induction rule: evolves.induct) (simp_all add: length_splice)

lemma cursor_before_push:
  "cursor_before k blk xs p \<Longrightarrow> cursor_before k blk (xs @ [x]) p"
  by (fastforce simp: cursor_before_def)

lemma cursor_before_splice:
  assumes "cursor_before k blk xs p" and "p' = p \<or> p' = p + 1"
  shows "cursor_before k blk (splice p x xs) p'"
proof -
  from assms(1) obtain a b where xs: "xs = a @ blk @ b" and p: "p \<le> length a" and k: "k \<le> p"
    by (auto simp: cursor_before_def)
  have "splice p x xs = splice p x a @ blk @ b"
    using p by (simp add: xs splice_left)
  moreover have "p' \<le> length (splice p x a)" "k \<le> p'"
    using p k assms(2) by (auto simp: length_splice)
  ultimately show ?thesis
    unfolding cursor_before_def by blast
qed

lemma cursor_before_evolves:
  assumes "evolves False s s'" and "cursor_before k blk (stack s) (splicePos s)"
  shows "cursor_before k blk (stack s') (splicePos s')"
  using assms
proof (induction rule: evolves.induct)
  case (same s')
  then show ?case by simp
next
  case (pushed s1 s' x)
  then show ?case by (simp add: cursor_before_push)
next
  case (spliced s1 s' x)
  then show ?case by (simp add: cursor_before_splice)
next
  case (spliced_stay s1 s' x)
  then show ?case by (simp add: cursor_before_splice)
next
  case (deferred s1 s')
  then show ?case by simp
qed

lemma text_placed_push:
  "text_placed k txt blk xs p \<Longrightarrow> text_placed k txt blk (xs @ [x]) p"
proof -
  assume "text_placed k txt blk xs p"
  then obtain pre mid post where xs: "xs = pre @ txt # mid @ blk @ post" and k: "k \<le> length pre"
    and p: "p \<le> length pre + 1 + length mid \<or> length pre + 1 + length mid + length blk \<le> p"
    by (auto simp: text_placed_def)
  have "xs @ [x] = pre @ txt # mid @ blk @ (post @ [x])"
    by (simp add: xs)
  with k p show ?thesis
    unfolding text_placed_def by blast
qed

lemma text_placed_splice:
  assumes "text_placed k txt blk xs p" and "p' = p \<or> p' = p + 1"
  shows "text_placed k txt blk (splice p x xs) p'"
proof -
  from assms(1) obtain pre mid post where xs: "xs = pre @ txt # mid @ blk @ post"
    and k: "k \<le> length pre"
    and p: "p \<le> length pre + 1 + length mid \<or> length pre + 1 + length mid + length blk \<le> p"
    by (auto simp: text_placed_def)
  consider (in_front) "p \<le> length pre"
    | (between) "length pre < p" "p \<le> length pre + 1 + length mid"
    | (behind) "length pre + 1 + length mid + length blk \<le> p"
    using p by linarith
  then show ?thesis
  proof cases
    case in_front
    have "splice p x xs = splice p x pre @ txt # mid @ blk @ post"
      using in_front by (simp add: xs splice_left)
    moreover have "k \<le> length (splice p x pre)"
      using k by (simp add: length_splice)
    moreover have "p' \<le> length (splice p x pre) + 1 + length mid"
      using in_front assms(2) by (auto simp: length_splice)
    ultimately show ?thesis
      unfolding text_placed_def by blast
  next
    case between
    let ?q = "p - length (pre @ [txt])"
    have "xs = (pre @ [txt]) @ (mid @ blk @ post)"
      by (simp add: xs)
    moreover have "length (pre @ [txt]) \<le> p"
      using between by simp
    ultimately have "splice p x xs = (pre @ [txt]) @ splice ?q x (mid @ blk @ post)"
      by (simp only: splice_right)
    also have "splice ?q x (mid @ blk @ post) = splice ?q x mid @ blk @ post"
      using between by (simp add: splice_left)
    finally have "splice p x xs = pre @ txt # splice ?q x mid @ blk @ post"
      by simp
    moreover have "p' \<le> length pre + 1 + length (splice ?q x mid)"
      using between assms(2) by (auto simp: length_splice)
    ultimately show ?thesis
      using k unfolding text_placed_def by blast
  next
    case behind
    let ?q = "p - length (pre @ txt # mid @ blk)"
    have "xs = (pre @ txt # mid @ blk) @ post"
      by (simp add: xs)
    moreover have "length (pre @ txt # mid @ blk) \<le> p"
      using behind by simp
    ultimately have "splice p x xs = (pre @ txt # mid @ blk) @ splice ?q x post"
      by (simp only: splice_right)
    then have "splice p x xs = pre @ txt # mid @ blk @ splice ?q x post"
      by simp
    moreover have "length pre + 1 + length mid + length blk \<le> p'"
      using behind assms(2) by auto
    ultimately show ?thesis
      using k unfolding text_placed_def by blast
  qed
qed

lemma text_placed_deferred:
  assumes "text_placed k txt blk xs p"
  shows "text_placed k txt blk xs (length xs)"
proof -
  from assms obtain pre mid post where xs: "xs = pre @ txt # mid @ blk @ post"
    and k: "k \<le> length pre"
    by (auto simp: text_placed_def)
  have "length pre + 1 + length mid + length blk \<le> length xs"
    by (simp add: xs)
  with xs k show ?thesis
    unfolding text_placed_def by blast
qed

lemma text_placed_evolves:
  assumes "evolves d s s'" and "text_placed k txt blk (stack s) (splicePos s)"
  shows "text_placed k txt blk (stack s') (splicePos s')"
  using assms
proof (induction rule: evolves.induct)
  case (same s')
  then show ?case by simp
next
  case (pushed s1 s' x)
  then show ?case by (simp add: text_placed_push)
next
  case (spliced s1 s' x)
  then show ?case by (simp add: text_placed_splice)
next
  case (spliced_stay s1 s' x)
  then show ?case by (simp add: text_placed_splice)
next
  case (deferred s1 s')
  then show ?case by (simp add: text_placed_deferred)
qed

lemma text_placed_before:
  "text_placed (Suc n) txt blk xs p \<Longrightarrow> text_before_href n txt blk xs"
  unfolding text_placed_def text_before_href_def by (metis Suc_le_eq)

subsection \<open>Anchors\<close>

lemma open_markers_attrs:
  "open_markers s name t evattrs =
     (case attrs t of
        None \<Rightarrow> open_markers s name (t\<lparr>attrs := None\<rparr>) evattrs
      | Some kvs \<Rightarrow> render_attrs name evattrs kvs (open_markers s name (t\<lparr>attrs := None\<rparr>) evattrs))"
  by (simp add: open_markers_def Let_def split: option.split)

lemma onopentag_anchor:
  assumes entry: "tagTable cfg (effective_name (listStack s0) name) = Entry t"
    and spec: "attrs t = Some [(''text'', (o1, c1)), (''href'', (o2, c2))]"
    and href: "map_of evattrs ''href'' = Some h"
    and ret: "onopentag cfg s0 name evattrs = Inr s1"
  shows "cursor_before (Suc (length (stack s0))) [c1, o2, h, c2] (stack s1) (splicePos s1) \<and>
    last_opt (spliceStack s1) = Some (effective_name (listStack s0) name)"
proof -
  let ?nm = "effective_name (listStack s0) name"
  define s2 where "s2 = (if name = ''li'' then s0\<lparr>trimNL := True\<rparr> else s0)\<lparr>tag := Entry t\<rparr>"
  from ret entry obtain s3 where
    ip: "indent_prefix cfg (open_spacing s2 ?nm (block t)) = Inr s3"
    and s1: "s1 = open_markers s3 ?nm t evattrs"
    by (auto simp: onopentag_def Let_def open_mapped_def s2_def split: sum.splits)
  define x where "x = open_markers s3 ?nm (t\<lparr>attrs := None\<rparr>) evattrs"
  have "evolves False s0 s2"
    by (rule evolves.same) (simp_all add: s2_def)
  then have "evolves False s0 s3"
    using ip open_spacing_evolves indent_prefix_evolves by blast
  then have "evolves False s0 x"
    unfolding x_def by (rule open_markers_evolves) (simp add: has_text_attr_def)
  then have len: "length (stack s0) \<le> length (stack x)"
    by (rule evolves_length)
  have s1x: "s1 = render_attrs ?nm evattrs [(''text'', (o1, c1)), (''href'', (o2, c2))] x"
    unfolding s1 x_def by (subst open_markers_attrs) (simp add: spec)
  have st: "stack s1 = (stack x @ [o1]) @ [c1, o2, h, c2] @ []"
    and sp: "splicePos s1 = Suc (length (stack x))"
    and ss: "spliceStack s1 = spliceStack x @ [?nm]"
    using href by (simp_all add: s1x Let_def push_def)
  have "cursor_before (Suc (length (stack s0))) [c1, o2, h, c2] (stack s1) (splicePos s1)"
    unfolding cursor_before_def
  proof (intro conjI exI)
    show "stack s1 = (stack x @ [o1]) @ [c1, o2, h, c2] @ []" by (rule st)
    show "Suc (length (stack s0)) \<le> splicePos s1" using len by (simp add: sp)
    show "splicePos s1 \<le> length (stack x @ [o1])" by (simp add: sp)
  qed
  moreover have "last_opt (spliceStack s1) = Some ?nm"
    by (simp add: ss last_opt_snoc)
  ultimately show ?thesis by blast
qed

lemma inner_event_keeps:
  assumes ie: "inner_event cfg nm s ev" and h: "handle cfg s ev = Inr s'"
    and cb: "cursor_before k blk (stack s) (splicePos s)"
    and top: "last_opt (spliceStack s) = Some nm"
  shows "cursor_before k blk (stack s') (splicePos s') \<and> last_opt (spliceStack s') = Some nm"
proof (cases ev)
  case (Open name evattrs)
  with ie have nd: "\<forall>t. tagTable cfg (effective_name (listStack s) name) = Entry t \<longrightarrow>
      \<not> has_text_attr t"
    by (auto simp: inner_event_def split: lookup.splits)
  from h Open have o: "onopentag cfg s name evattrs = Inr s'"
    by (simp add: handle_def)
  have "evolves False s s'"
    using o nd by (rule onopentag_evolves [OF _ disjI2])
  with cb have "cursor_before k blk (stack s') (splicePos s')"
    by (rule cursor_before_evolves [rotated])
  moreover have "spliceStack s' = spliceStack s"
    using o nd by (rule onopentag_spliceStack)
  ultimately show ?thesis using top by simp
next
  case (Text tx)
  with h have s': "s' = ontext s tx"
    by (simp add: handle_def)
  have "evolves False s s'"
    unfolding s' by (rule ontext_evolves)
  with cb have "cursor_before k blk (stack s') (splicePos s')"
    by (rule cursor_before_evolves [rotated])
  then show ?thesis using top by (simp add: s' ontext_spliceStack)
next
  case (Close name)
  with ie have ne: "effective_name (listStack s) name \<noteq> nm"
    by (simp add: inner_event_def)
  from h Close have c: "onclosetag cfg s name = Inr s'"
    by (simp add: handle_def)
  have "evolves False s s'"
    using c by (rule onclosetag_evolves)
  with cb have "cursor_before k blk (stack s') (splicePos s')"
    by (rule cursor_before_evolves [rotated])
  moreover have "spliceStack s' = spliceStack s"
    using c top ne by (auto intro: onclosetag_spliceStack)
  ultimately show ?thesis using top by simp
qed

lemma inner_run_keeps:
  assumes "inner cfg nm s evs"
    and "cursor_before k blk (stack s) (splicePos s)"
    and "last_opt (spliceStack s) = Some nm"
  shows "\<exists>s'. run cfg s evs = Inr s' \<and> cursor_before k blk (stack s') (splicePos s') \<and>
    last_opt (spliceStack s') = Some nm"
  using assms
proof (induction evs arbitrary: s)
  case Nil
  then show ?case by simp
next
  case (Cons ev evs)
  from Cons.prems(1) obtain s1 where ie: "inner_event cfg nm s ev"
    and h: "handle cfg s ev = Inr s1" and rest: "inner cfg nm s1 evs"
    by (auto split: sum.splits)
  from inner_event_keeps [OF ie h Cons.prems(2,3)]
  have "cursor_before k blk (stack s1) (splicePos s1)" "last_opt (spliceStack s1) = Some nm"
    by simp_all
  from Cons.IH [OF rest this] h show ?case by simp
qed

lemma ontext_places:
  assumes cb: "cursor_before k blk (stack s) (splicePos s)"
    and top: "last_opt (spliceStack s) = Some nm"
  shows "text_placed k txt blk (stack (ontext s txt)) (splicePos (ontext s txt))"
proof -
  define s1 where "s1 = (case tag s of
      Absent \<Rightarrow> s
    | Entry t \<Rightarrow>
        if block t \<and> last_opt (stack s) \<noteq> Some (open t) then push (open t) s else s
    | Inherited \<Rightarrow> s)"
  have ne: "spliceStack s1 \<noteq> []"
    using top by (auto simp: s1_def last_opt_def push_def split: lookup.split if_splits)
  have "splicePos s1 = splicePos s" "stack s1 = stack s \<or> (\<exists>x. stack s1 = stack s @ [x])"
    by (auto simp: s1_def push_def split: lookup.split)
  with cb have "cursor_before k blk (stack s1) (splicePos s1)"
    by (auto simp: cursor_before_push)
  then obtain a b where st: "stack s1 = a @ blk @ b" and p: "splicePos s1 \<le> length a"
    and k: "k \<le> splicePos s1"
    by (auto simp: cursor_before_def)
  have unfold: "ontext s txt =
      s1\<lparr>stack := splice (splicePos s1) txt (stack s1), splicePos := splicePos s1 + 1\<rparr>"
    using ne unfolding ontext_def s1_def [symmetric] Let_def by simp
  let ?p = "splicePos s1"
  have "splice ?p txt (stack s1) = splice ?p txt a @ blk @ b"
    using p by (simp add: st splice_left)
  also have "splice ?p txt a = take ?p a @ txt # drop ?p a"
    by (simp add: splice_def)
  finally have "stack (ontext s txt) = take ?p a @ txt # drop ?p a @ blk @ b"
    by (simp add: unfold)
  moreover have "k \<le> length (take ?p a)"
    using p k by simp
  moreover have "splicePos (ontext s txt) \<le> length (take ?p a) + 1 + length (drop ?p a)"
    using p by (simp add: unfold)
  ultimately show ?thesis
    unfolding text_placed_def by blast
qed

lemma run_append:
  "run cfg s (evs @ evs') =
     (case run cfg s evs of Inl e \<Rightarrow> Inl e | Inr s' \<Rightarrow> run cfg s' evs')"
  by (induction evs arbitrary: s) (simp_all split: sum.split)

text \<open>
  C1, as stated, places the text of an anchor-like tag in front of the wrapped href for
  every later text event. There is one splice position, and a second deferring tag
  opened inside the first sets it behind the markers of the first: for an anchor inside
  an anchor the text lands behind the wrapped href of the outer anchor.
\<close>

theorem C1_nested_anchor_text_after_href:
  "stack (state_of (run (default_config reconstruct) init
      [Open ''a'' [(''href'', ''u'')], Open ''a'' [(''href'', ''v'')], Text ''t''])) =
     [''['', '']'', ''('', ''u'', '')'', ''['', ''t'', '']'', ''('', ''v'', '')''] \<and>
   \<not> text_before_href 0 ''t'' ['']'', ''('', ''u'', '')'']
      (stack (state_of (run (default_config reconstruct) init
        [Open ''a'' [(''href'', ''u'')], Open ''a'' [(''href'', ''v'')], Text ''t'']))) \<and>
   write_events (default_config reconstruct)
     [Open ''a'' [(''href'', ''u'')], Open ''a'' [(''href'', ''v'')], Text ''t'', Close ''a'',
      Close ''a''] = Inr ''[](u)[t](v)''"
proof -
  let ?evs = "[Open ''a'' [(''href'', ''u'')], Open ''a'' [(''href'', ''v'')], Text ''t'']"
  let ?xs = "stack (state_of (run (default_config reconstruct) init ?evs))"
  let ?a = "[''['', '']'', ''('', ''u'', '')'', ''['']" and ?b = "['']'', ''('', ''v'', '')'']"
  have st: "?xs = ?a @ ''t'' # ?b"
    by (simp add: model_defs state_of_def)
  have no: "\<not> text_before_href 0 ''t'' ['']'', ''('', ''u'', '')''] ?xs"
  proof
    assume "text_before_href 0 ''t'' ['']'', ''('', ''u'', '')''] ?xs"
    then obtain pre mid post where
      eq: "?a @ ''t'' # ?b = pre @ ''t'' # (mid @ ['']'', ''('', ''u'', '')''] @ post)"
      unfolding text_before_href_def st by blast
    have "(?a @ ''t'' # ?b = pre @ ''t'' # (mid @ ['']'', ''('', ''u'', '')''] @ post)) =
        (?a = pre \<and> ?b = mid @ ['']'', ''('', ''u'', '')''] @ post)"
      by (rule append_Cons_eq_iff) simp_all
    with eq have "?b = mid @ ['']'', ''('', ''u'', '')''] @ post"
      by blast
    then have "''u'' \<in> set ?b"
      by (simp only: set_append) simp
    then show False by simp
  qed
  have out: "write_events (default_config reconstruct)
     [Open ''a'' [(''href'', ''u'')], Open ''a'' [(''href'', ''v'')], Text ''t'', Close ''a'',
      Close ''a''] = Inr ''[](u)[t](v)''"
    by (simp add: model_defs)
  from st no out show ?thesis by simp
qed

text \<open>
  C1, amended: take any dialect, any state, and any open event whose effective name is
  an entry with the attributes \<^verbatim>\<open>text\<close> and then \<^verbatim>\<open>href\<close>. When the event carries
  an \<^verbatim>\<open>href\<close> value and the handler returns, and only inner events arrive before the
  text event (no other deferring tag is opened and this tag is not closed), then the
  text event puts its text in front of the contiguous fragments close marker of
  \<^verbatim>\<open>text\<close>, open marker of \<^verbatim>\<open>href\<close>, href value, close marker of \<^verbatim>\<open>href\<close>, and
  behind everything the buffer held before the open event. Every later run of events
  and the closing at the end of input keep this order, so in a conversion that starts
  with these events the text stands in front of the wrapped href in the final buffer,
  which is joined and cleaned up into the output. In particular the element
  \<^verbatim>\<open><a href="http://example.org">this is a test</a>\<close> converts to
  \<^verbatim>\<open>[this is a test](http://example.org)\<close>.
\<close>

theorem C1_text_before_href:
  assumes "tagTable cfg (effective_name (listStack s0) name) = Entry t"
    and "attrs t = Some [(''text'', (o1, c1)), (''href'', (o2, c2))]"
    and "map_of evattrs ''href'' = Some h"
    and "onopentag cfg s0 name evattrs = Inr s1"
    and "inner cfg (effective_name (listStack s0) name) s1 evs"
  shows "(\<exists>s2. run cfg s1 evs = Inr s2 \<and>
      text_before_href (length (stack s0)) txt [c1, o2, h, c2] (stack (ontext s2 txt)) \<and>
      (\<forall>rest s3. run cfg (ontext s2 txt) rest = Inr s3 \<longrightarrow>
         text_before_href (length (stack s0)) txt [c1, o2, h, c2] (stack s3) \<and>
         (\<forall>s4. closeUnclosedTags cfg s3 = Inr s4 \<longrightarrow>
            text_before_href (length (stack s0)) txt [c1, o2, h, c2] (stack s4)))) \<and>
    (s0 = init \<longrightarrow>
      (\<forall>rest sf. final_state cfg (Open name evattrs # evs @ Text txt # rest) = Inr sf \<longrightarrow>
         text_before_href 0 txt [c1, o2, h, c2] (stack sf) \<and>
         write_events cfg (Open name evattrs # evs @ Text txt # rest) =
           Inr (finalize (stack sf)))) \<and>
    write_events (default_config rb)
      [Open ''a'' [(''href'', ''http://example.org'')], Text ''this is a test'', Close ''a''] =
      Inr ''[this is a test](http://example.org)''"
proof -
  let ?k = "Suc (length (stack s0))" and ?blk = "[c1, o2, h, c2]"
  let ?nm = "effective_name (listStack s0) name"
  from onopentag_anchor [OF assms(1-4)]
  have cb: "cursor_before ?k ?blk (stack s1) (splicePos s1)"
    and top: "last_opt (spliceStack s1) = Some ?nm"
    by simp_all
  from inner_run_keeps [OF assms(5) cb top] obtain s2 where
    r: "run cfg s1 evs = Inr s2" and cb2: "cursor_before ?k ?blk (stack s2) (splicePos s2)"
    and top2: "last_opt (spliceStack s2) = Some ?nm"
    by blast
  let ?s = "ontext s2 txt"
  have tp: "text_placed ?k txt ?blk (stack ?s) (splicePos ?s)"
    using cb2 top2 by (rule ontext_places)
  have later: "text_before_href (length (stack s0)) txt ?blk (stack s3) \<and>
      (\<forall>s4. closeUnclosedTags cfg s3 = Inr s4 \<longrightarrow>
         text_before_href (length (stack s0)) txt ?blk (stack s4))"
    if "run cfg ?s rest = Inr s3" for rest s3
  proof -
    have tp3: "text_placed ?k txt ?blk (stack s3) (splicePos s3)"
      using run_evolves [OF that] tp by (rule text_placed_evolves)
    have "text_placed ?k txt ?blk (stack s4) (splicePos s4)"
      if "closeUnclosedTags cfg s3 = Inr s4" for s4
      using closeUnclosedTags_evolves [OF that] tp3 by (rule text_placed_evolves)
    with tp3 show ?thesis
      by (blast intro: text_placed_before)
  qed
  have whole: "text_before_href 0 txt ?blk (stack sf) \<and>
      write_events cfg (Open name evattrs # evs @ Text txt # rest) = Inr (finalize (stack sf))"
    if s0: "s0 = init"
      and f: "final_state cfg (Open name evattrs # evs @ Text txt # rest) = Inr sf"
    for rest sf
  proof -
    have "handle cfg init (Open name evattrs) = Inr s1"
      using assms(4) by (simp add: s0 handle_def)
    then have run: "run cfg init (Open name evattrs # evs @ Text txt # rest) = run cfg ?s rest"
      using r by (simp add: run_append handle_def)
    from f have f': "(case run cfg ?s rest of
          Inl e \<Rightarrow> Inl e
        | Inr s \<Rightarrow> if length (tagStack s) > 0 then closeUnclosedTags cfg s else Inr s) = Inr sf"
      unfolding final_state_def run .
    then obtain s3 where r3: "run cfg ?s rest = Inr s3"
      by (auto split: sum.splits)
    from later [OF r3] have b3: "text_before_href 0 txt ?blk (stack s3)"
      and b4: "\<And>s4. closeUnclosedTags cfg s3 = Inr s4 \<Longrightarrow>
        text_before_href 0 txt ?blk (stack s4)"
      by (simp_all add: s0 init_def)
    from f' r3 have "sf = s3 \<or> closeUnclosedTags cfg s3 = Inr sf"
      by (auto split: if_splits)
    with b3 b4 have "text_before_href 0 txt ?blk (stack sf)"
      by blast
    moreover have "write_events cfg (Open name evattrs # evs @ Text txt # rest) =
        Inr (finalize (stack sf))"
      by (simp add: write_events_def f)
    ultimately show ?thesis by blast
  qed
  have lit: "write_events (default_config rb)
      [Open ''a'' [(''href'', ''http://example.org'')], Text ''this is a test'', Close ''a''] =
      Inr ''[this is a test](http://example.org)''"
    by (simp add: model_defs)
  have first: "\<exists>s2. run cfg s1 evs = Inr s2 \<and>
      text_before_href (length (stack s0)) txt ?blk (stack (ontext s2 txt)) \<and>
      (\<forall>rest s3. run cfg (ontext s2 txt) rest = Inr s3 \<longrightarrow>
         text_before_href (length (stack s0)) txt ?blk (stack s3) \<and>
         (\<forall>s4. closeUnclosedTags cfg s3 = Inr s4 \<longrightarrow>
            text_before_href (length (stack s0)) txt ?blk (stack s4)))"
    using r tp later by (blast intro: text_placed_before)
  from first whole lit show ?thesis by blast
qed

theorem C1_text_before_href_witness:
  "tagTable (default_config reconstruct) (effective_name (listStack init) ''a'') =
     Entry \<lparr>open = [], close = [], block = False, indent = None,
       attrs = Some [(''text'', (''['', '']'')), (''href'', (''('', '')''))]\<rparr> \<and>
   map_of [(''href'', ''u'')] ''href'' = Some ''u'' \<and>
   onopentag (default_config reconstruct) init ''a'' [(''href'', ''u'')] =
     Inr (init\<lparr>stack := [''['', '']'', ''('', ''u'', '')''], splicePos := 1,
       spliceStack := [''a''], tagStack := [''a''], tag := defaultDialect ''a''\<rparr>) \<and>
   inner (default_config reconstruct) (effective_name (listStack init) ''a'')
     (init\<lparr>stack := [''['', '']'', ''('', ''u'', '')''], splicePos := 1,
       spliceStack := [''a''], tagStack := [''a''], tag := defaultDialect ''a''\<rparr>)
     [Open ''b'' [], Text ''x'', Close ''b''] \<and>
   (\<exists>s2. run (default_config reconstruct)
       (init\<lparr>stack := [''['', '']'', ''('', ''u'', '')''], splicePos := 1,
         spliceStack := [''a''], tagStack := [''a''], tag := defaultDialect ''a''\<rparr>)
       [Open ''b'' [], Text ''x'', Close ''b''] = Inr s2 \<and>
     stack (ontext s2 ''y'') = [''['', ''**'', ''x'', ''y'', ''**'', '']'', ''('', ''u'', '')''] \<and>
     text_before_href 0 ''y'' ['']'', ''('', ''u'', '')''] (stack (ontext s2 ''y''))) \<and>
   final_state (default_config reconstruct)
     [Open ''a'' [(''href'', ''u'')], Open ''b'' [], Text ''x'', Close ''b'', Text ''y'',
      Close ''a''] =
     Inr (init\<lparr>stack := [''['', ''**'', ''x'', ''y'', ''**'', '']'', ''('', ''u'', '')''],
       splicePos := 4, tag := defaultDialect ''b''\<rparr>) \<and>
   text_before_href 0 ''y'' ['']'', ''('', ''u'', '')'']
     [''['', ''**'', ''x'', ''y'', ''**'', '']'', ''('', ''u'', '')''] \<and>
   write_events (default_config reconstruct)
     [Open ''a'' [(''href'', ''u'')], Open ''b'' [], Text ''x'', Close ''b'', Text ''y'',
      Close ''a''] = Inr ''[**xy**](u)''"
proof -
  let ?cfg = "default_config reconstruct"
  let ?t = "\<lparr>open = [], close = [], block = False, indent = None,
       attrs = Some [(''text'', (''['', '']'')), (''href'', (''('', '')''))]\<rparr>"
  let ?s1 = "init\<lparr>stack := [''['', '']'', ''('', ''u'', '')''], splicePos := 1,
       spliceStack := [''a''], tagStack := [''a''], tag := defaultDialect ''a''\<rparr>"
  let ?evs = "[Open ''b'' [], Text ''x'', Close ''b'']"
  have h1: "tagTable ?cfg (effective_name (listStack init) ''a'') = Entry ?t"
    by (simp add: model_defs)
  have h2: "attrs ?t = Some [(''text'', (''['', '']'')), (''href'', (''('', '')''))]"
    by simp
  have h3: "map_of [(''href'', ''u'')] ''href'' = Some ''u''"
    by simp
  have h4: "onopentag ?cfg init ''a'' [(''href'', ''u'')] = Inr ?s1"
    by (simp add: model_defs)
  have h5: "inner ?cfg (effective_name (listStack init) ''a'') ?s1 ?evs"
    by (simp add: model_defs inner_event_def has_text_attr_def)
  note inst = C1_text_before_href [OF h1 h2 h3 h4 h5, of "''y''"]
  from inst obtain s2 where
    r: "run ?cfg ?s1 ?evs = Inr s2" and
    b: "text_before_href (length (stack init)) ''y'' ['']'', ''('', ''u'', '')'']
      (stack (ontext s2 ''y''))"
    by blast
  have "run ?cfg ?s1 ?evs = Inr (?s1\<lparr>stack := [''['', ''**'', ''x'', ''**'', '']'', ''('', ''u'', '')''],
      splicePos := 3, tag := defaultDialect ''b''\<rparr>)"
    by (simp add: model_defs)
  with r have s2: "s2 = ?s1\<lparr>stack := [''['', ''**'', ''x'', ''**'', '']'', ''('', ''u'', '')''],
      splicePos := 3, tag := defaultDialect ''b''\<rparr>"
    by simp
  have st: "stack (ontext s2 ''y'') = [''['', ''**'', ''x'', ''y'', ''**'', '']'', ''('', ''u'', '')'']"
    unfolding s2 by (simp add: model_defs)
  from b have b0: "text_before_href 0 ''y'' ['']'', ''('', ''u'', '')''] (stack (ontext s2 ''y''))"
    by (simp add: init_def)
  let ?sf = "init\<lparr>stack := [''['', ''**'', ''x'', ''y'', ''**'', '']'', ''('', ''u'', '')''],
       splicePos := 4, tag := defaultDialect ''b''\<rparr>"
  have f: "final_state ?cfg (Open ''a'' [(''href'', ''u'')] # ?evs @ Text ''y'' # [Close ''a'']) =
      Inr ?sf"
    by (simp add: model_defs)
  from inst f have "text_before_href 0 ''y'' ['']'', ''('', ''u'', '')''] (stack ?sf) \<and>
      write_events ?cfg (Open ''a'' [(''href'', ''u'')] # ?evs @ Text ''y'' # [Close ''a'']) =
        Inr (finalize (stack ?sf))"
    by blast
  then have e: "text_before_href 0 ''y'' ['']'', ''('', ''u'', '')'']
        [''['', ''**'', ''x'', ''y'', ''**'', '']'', ''('', ''u'', '')'']"
    and w: "write_events ?cfg
       [Open ''a'' [(''href'', ''u'')], Open ''b'' [], Text ''x'', Close ''b'', Text ''y'',
        Close ''a''] = Inr ''[**xy**](u)''"
    by (simp_all add: finalize_def)
  from f have f0: "final_state ?cfg
       [Open ''a'' [(''href'', ''u'')], Open ''b'' [], Text ''x'', Close ''b'', Text ''y'',
        Close ''a''] = Inr ?sf"
    by simp
  from h1 h3 h4 h5 r st b0 e w f0 show ?thesis by blast
qed

subsection \<open>The pre/code pair\<close>

text \<open>
  C2 says that an open event for \<^verbatim>\<open>code\<close> directly inside \<^verbatim>\<open>pre\<close> sets the
  close-suppression flag and removes the fragment emitted for \<^verbatim>\<open>pre\<close>. The handler
  pushes the name on the tag stack before it compares the top of that stack with
  \<^verbatim>\<open>pre\<close>, so the comparison sees \<^verbatim>\<open>code\<close>. Evaluated on \<^verbatim>\<open>open(pre)\<close>,
  \<^verbatim>\<open>open(code)\<close>: the flag stays unset and the backquote of \<^verbatim>\<open>pre\<close> stays in the
  buffer; the whole element renders with both the inline and the block markers.
\<close>

theorem C2_pre_code_not_collapsed:
  "\<exists>s. run (default_config rb) init [Open ''pre'' [], Open ''code'' []] = Inr s \<and>
     ignoreClose s = False \<and>
     stack s = [''`'', [nl, nl], ''```'' @ [nl]] \<and>
     write_events (default_config rb)
       [Open ''pre'' [], Open ''code'' [], Text ''x'', Close ''code'', Close ''pre''] =
       Inr (''`'' @ [nl, nl] @ ''```'' @ [nl] @ ''x'' @ [nl] @ ''```'' @ [nl, nl] @ ''`'')"
  by (simp add: model_defs)

subsection \<open>Closing what is left open\<close>

lemma closeUnclosedTags_empty: "tagStack s = [] \<Longrightarrow> closeUnclosedTags cfg s = Inr s"
  by (simp add: closeUnclosedTags.simps)

lemma closeUnclosedTags_snoc:
  "tagStack s = ns @ [n] \<Longrightarrow> n \<noteq> [] \<Longrightarrow>
   onclosetag cfg (s\<lparr>tagStack := ns\<rparr>) n = Inr s' \<Longrightarrow>
   closeUnclosedTags cfg s = closeUnclosedTags cfg s'"
  by (subst closeUnclosedTags.simps) (simp add: Let_def)

text \<open>
  C3 says that at the end of input every name left on the tag stack, duplicated nested
  names included, gets exactly one call of the close handler. The loop pops a name and
  calls the close handler, and the handler pops the next entry as well when it carries
  the same name. Evaluated on \<^verbatim>\<open>open(b)\<close>, \<^verbatim>\<open>open(b)\<close>, \<^verbatim>\<open>text(x)\<close>: the tag stack
  holds \<^verbatim>\<open>b\<close> twice, the loop amounts to one call of the close handler, and the output
  has one closing marker, where the same events followed by two close events give two.
\<close>

theorem C3_duplicate_names_closed_once:
  "\<exists>s. run (default_config rb) init [Open ''b'' [], Open ''b'' [], Text ''x''] = Inr s \<and>
     tagStack s = [''b'', ''b''] \<and>
     closeUnclosedTags (default_config rb) s =
       onclosetag (default_config rb) (s\<lparr>tagStack := [''b'']\<rparr>) ''b'' \<and>
     write_events (default_config rb) [Open ''b'' [], Open ''b'' [], Text ''x''] =
       Inr ''****x**'' \<and>
     write_events (default_config rb)
       [Open ''b'' [], Open ''b'' [], Text ''x'', Close ''b'', Close ''b''] = Inr ''****x****''"
proof -
  let ?cfg = "default_config rb"
  let ?s = "init\<lparr>stack := [''**'', ''**'', ''x''], tagStack := [''b'', ''b''],
      tag := defaultDialect ''b''\<rparr>"
  let ?s' = "init\<lparr>stack := [''**'', ''**'', ''x'', ''**''], tag := defaultDialect ''b''\<rparr>"
  have r: "run ?cfg init [Open ''b'' [], Open ''b'' [], Text ''x''] = Inr ?s"
    by (simp add: model_defs)
  have c1: "onclosetag ?cfg (?s\<lparr>tagStack := [''b'']\<rparr>) ''b'' = Inr ?s'"
    by (simp add: model_defs)
  have "closeUnclosedTags ?cfg ?s = closeUnclosedTags ?cfg ?s'"
    by (rule closeUnclosedTags_snoc [where ns = "[''b'']", OF _ _ c1]) (simp_all add: init_def)
  also have "\<dots> = Inr ?s'"
    by (rule closeUnclosedTags_empty) (simp add: init_def)
  finally have cu: "closeUnclosedTags ?cfg ?s = Inr ?s'" .
  have w1: "write_events ?cfg [Open ''b'' [], Open ''b'' [], Text ''x''] = Inr ''****x**''"
  proof -
    have "write_events ?cfg [Open ''b'' [], Open ''b'' [], Text ''x''] =
        (case closeUnclosedTags ?cfg ?s of Inl e \<Rightarrow> Inl e
         | Inr s' \<Rightarrow> Inr (finalize (stack s')))"
      unfolding write_events_def final_state_def r by simp
    also have "\<dots> = Inr (finalize [''**'', ''**'', ''x'', ''**''])"
      by (simp only: cu) simp
    finally show ?thesis by (simp add: finalize_def)
  qed
  have w2: "write_events ?cfg
       [Open ''b'' [], Open ''b'' [], Text ''x'', Close ''b'', Close ''b''] = Inr ''****x****''"
    by (simp add: model_defs)
  have "tagStack ?s = [''b'', ''b'']" by simp
  with r cu c1 w1 w2 show ?thesis by auto
qed

subsection \<open>The whitespace clean-up\<close>

text \<open>
  C4 says that the returned string has no two consecutive spaces and no space in front
  of a line break. Each replacement is one pass over non-overlapping matches, so a run of
  three spaces leaves two. Evaluated on \<^verbatim>\<open>open(b)\<close>, \<^verbatim>\<open>text(a   b)\<close>, \<^verbatim>\<open>close(b)\<close>
  the result keeps two spaces, and on \<^verbatim>\<open>open(h1)\<close>, \<^verbatim>\<open>text(a   )\<close>, \<^verbatim>\<open>close(h1)\<close>
  it keeps a space in front of the line break.
\<close>

theorem C4_three_spaces:
  "write_events (default_config rb) [Open ''b'' [], Text ''a   b'', Close ''b''] =
     Inr ''**a  b**'' \<and>
   write_events (default_config rb) [Open ''h1'' [], Text ''a   '', Close ''h1''] =
     Inr (''# a '' @ [nl])"
  by (simp add: model_defs)

subsection \<open>Headings\<close>

text \<open>
  C5 says that \<^verbatim>\<open><h1>test</h1><h2>test</h2>\<close> converts to each heading followed by
  a blank line. The heading entries of the dialect close with one line break and are
  not block-level, so the events of that input give one line break after each heading.
\<close>

theorem C5_headings_single_line_break:
  "write_events (default_config rb)
     [Open ''h1'' [], Text ''test'', Close ''h1'', Open ''h2'' [], Text ''test'', Close ''h2''] =
     Inr (''# test'' @ [nl] @ ''## test'' @ [nl])"
  by (simp add: model_defs)

subsection \<open>Close markers during deferred insertion\<close>

text \<open>
  C6 says that a close marker inserted at the splice position moves the position past
  it. The close handler inserts the marker and leaves \<^verbatim>\<open>splicePos\<close> as it is, unlike
  the open and text handlers. Evaluated inside an anchor, after \<^verbatim>\<open>open(a)\<close>,
  \<^verbatim>\<open>open(b)\<close>, \<^verbatim>\<open>text(x)\<close>: closing \<^verbatim>\<open>b\<close> inserts the marker at position 3 and
  the position stays 3, so the text that follows lands in front of the marker.
\<close>

theorem C6_close_keeps_splicePos:
  "\<exists>s s'. run (default_config rb) init
         [Open ''a'' [(''href'', ''u'')], Open ''b'' [], Text ''x''] = Inr s \<and>
     spliceStack s = [''a''] \<and> ignoreClose s = False \<and> splicePos s = 3 \<and>
     stack s = [''['', ''**'', ''x'', '']'', ''('', ''u'', '')''] \<and>
     onclosetag (default_config rb) s ''b'' = Inr s' \<and>
     stack s' = [''['', ''**'', ''x'', ''**'', '']'', ''('', ''u'', '')''] \<and>
     splicePos s' = 3 \<and>
     write_events (default_config rb)
       [Open ''a'' [(''href'', ''u'')], Open ''b'' [], Text ''x'', Close ''b'', Text ''y'',
        Close ''a''] = Inr ''[**xy**](u)''"
  by (simp add: model_defs)

subsection \<open>Line breaks in text\<close>

text \<open>
  C7 says that, outside deferred insertion, a text that is exactly one line break is
  stripped when the previous fragment ends in a line break. The handler tests
  \<^verbatim>\<open>this.text\<close>, which is never assigned, so only the trim mode strips. Evaluated
  after \<^verbatim>\<open>open(h1)\<close>, \<^verbatim>\<open>text(t)\<close>, \<^verbatim>\<open>close(h1)\<close>, where the last fragment is a
  line break and the trim mode is off: the text event of one line break appends that
  line break, where stripping would append the empty string.
\<close>

theorem C7_single_line_break_kept:
  "\<exists>s. run (default_config rb) init [Open ''h1'' [], Text ''t'', Close ''h1''] = Inr s \<and>
     spliceStack s = [] \<and> trimNL s = False \<and>
     stack s = [''# '', ''t'', [nl]] \<and>
     stack (ontext s [nl]) = [''# '', ''t'', [nl], [nl]] \<and>
     strip_nl [nl] = []"
  by (simp add: model_defs)

subsection \<open>Close events that do not match\<close>

lemma close_stacks_tagStack:
  "tagStack (close_stacks s name ind blk) =
     (if last_opt (tagStack s) = Some name then butlast (tagStack s) else tagStack s)"
  by (simp add: close_stacks_def Let_def push_def)

lemma close_marker_tagStack: "tagStack (close_marker s t) = tagStack s"
  by (simp add: close_marker_def push_def)

lemma reset_ignoreClose_tagStack: "tagStack (reset_ignoreClose s) = tagStack s"
  by (simp add: reset_ignoreClose_def)

lemma close_prepare_tagStack: "tagStack (close_prepare s name) = tagStack s"
  by (simp add: close_prepare_def Let_def)

lemma onclosetag_tagStack:
  assumes "last_opt (tagStack s) \<noteq> Some (effective_name (listStack s) name)"
  shows "tagStack (state_of (onclosetag cfg s name)) = tagStack s"
  using assms
  by (cases "tagTable cfg (effective_name (listStack s) name)")
     (simp_all add: onclosetag_def Let_def state_of_def close_mapped_def close_prepare_name
        close_prepare_tagStack close_stacks_tagStack close_marker_tagStack
        reset_ignoreClose_tagStack push_def)

lemma onclosetag_returns:
  assumes "tagTable cfg (effective_name (listStack s) name) \<noteq> Inherited"
  shows "\<exists>s'. onclosetag cfg s name = Inr s'"
  using assms
  by (cases "tagTable cfg (effective_name (listStack s) name)")
     (simp_all add: onclosetag_def Let_def close_prepare_name)

text \<open>
  C8, as stated, compares the name of the close event with the top of the tag stack and
  promises a normal return. The handlers push and compare the effective name: inside an
  ordered list the tag stack holds \<^verbatim>\<open>olli\<close> for an item, and \<^verbatim>\<open>close(li)\<close> pops it
  although \<^verbatim>\<open>li\<close> is not the top of the stack. And with the default dialect the name
  \<^verbatim>\<open>constructor\<close> finds an inherited property, on which the handler throws.
\<close>

theorem C8_close_li_pops_olli:
  "run (default_config reconstruct) init [Open ''ol'' [], Open ''li'' []] =
     Inr list_item_state \<and>
   last_opt (tagStack list_item_state) = Some ''olli'' \<and>
   last_opt (tagStack list_item_state) \<noteq> Some ''li'' \<and>
   onclosetag (default_config reconstruct) list_item_state ''li'' =
     Inr (list_item_state\<lparr>stack := [''1. '', [nl]], trimNL := False, tagStack := [''ol'']\<rparr>) \<and>
   [''ol''] \<noteq> tagStack list_item_state \<and>
   last_opt (tagStack init) \<noteq> Some ''constructor'' \<and>
   onclosetag (default_config reconstruct) init ''constructor'' = Inl (TypeError, init)"
  by (simp add: model_defs list_item_state_def)

text \<open>
  C8, amended: for every close event whose effective name (the name itself, or for
  \<^verbatim>\<open>li\<close> the top of the list stack followed by \<^verbatim>\<open>li\<close>) is not the top of the tag
  stack, the close handler leaves the tag stack as it was; and it returns without raising
  whenever the lookup of the effective name yields an entry of the dialect or nothing.
\<close>

theorem C8_mismatched_close_keeps_tagStack:
  assumes "last_opt (tagStack s) \<noteq> Some (effective_name (listStack s) name)"
  shows "tagStack (state_of (onclosetag cfg s name)) = tagStack s \<and>
    (tagTable cfg (effective_name (listStack s) name) \<noteq> Inherited \<longrightarrow>
       (\<exists>s'. onclosetag cfg s name = Inr s' \<and> tagStack s' = tagStack s))"
proof -
  have t: "tagStack (state_of (onclosetag cfg s name)) = tagStack s"
    using assms by (rule onclosetag_tagStack)
  have "\<exists>s'. onclosetag cfg s name = Inr s' \<and> tagStack s' = tagStack s"
    if "tagTable cfg (effective_name (listStack s) name) \<noteq> Inherited"
  proof -
    from onclosetag_returns [OF that] obtain s' where s': "onclosetag cfg s name = Inr s'"
      by blast
    with t have "tagStack s' = tagStack s" by (simp add: state_of_def)
    with s' show ?thesis by blast
  qed
  with t show ?thesis by blast
qed

theorem C8_mismatched_close_witness:
  "last_opt (tagStack (init\<lparr>listStack := [''ol''], tagStack := [''ol'']\<rparr>)) \<noteq>
     Some (effective_name (listStack (init\<lparr>listStack := [''ol''], tagStack := [''ol'']\<rparr>))
       ''li'') \<and>
   tagTable (default_config reconstruct)
     (effective_name (listStack (init\<lparr>listStack := [''ol''], tagStack := [''ol'']\<rparr>)) ''li'')
     \<noteq> Inherited \<and>
   (\<exists>s'. onclosetag (default_config reconstruct)
      (init\<lparr>listStack := [''ol''], tagStack := [''ol'']\<rparr>) ''li'' = Inr s' \<and>
      tagStack s' = [''ol''])"
proof -
  let ?s = "init\<lparr>listStack := [''ol''], tagStack := [''ol'']\<rparr>"
  have h: "last_opt (tagStack ?s) \<noteq> Some (effective_name (listStack ?s) ''li'')"
    by (simp add: last_opt_def effective_name_def li_name_def)
  have e: "tagTable (default_config reconstruct) (effective_name (listStack ?s) ''li'')
      \<noteq> Inherited"
    by (simp add: model_defs)
  from C8_mismatched_close_keeps_tagStack [OF h, of "default_config reconstruct"] e h
  show ?thesis by simp
qed


subsection \<open>Stack lengths\<close>

lemma stacks_inv_init: "stacks_inv cfg init"
  by (simp add: stacks_inv_def init_def)

lemma stacks_inv_same:
  "indentStack s' = indentStack s \<Longrightarrow> tagStack s' = tagStack s \<Longrightarrow>
   stacks_inv cfg s \<Longrightarrow> stacks_inv cfg s'"
  by (simp add: stacks_inv_def)

lemma render_attrs_stacks:
  "tagStack (render_attrs name evattrs kvs s) = tagStack s \<and>
   indentStack (render_attrs name evattrs kvs s) = indentStack s"
  by (induction name evattrs kvs s rule: render_attrs.induct)
     (simp_all add: Let_def push_def split: option.split)

lemma indent_prefix_stacks:
  "indent_prefix cfg s = Inr s' \<Longrightarrow>
   tagStack s' = tagStack s \<and> indentStack s' = indentStack s"
  by (auto simp: indent_prefix_def push_def split: option.splits lookup.splits)

lemma onopentag_inv:
  assumes inv: "stacks_inv cfg s" and ret: "onopentag cfg s name evattrs = Inr s'"
  shows "stacks_inv cfg s'"
proof (cases "tagTable cfg (effective_name (listStack s) name)")
  case Absent
  with ret have "indentStack s' = indentStack s" "tagStack s' = tagStack s"
    by (auto simp: onopentag_def Let_def push_def split: if_splits)
  then show ?thesis using inv by (rule stacks_inv_same)
next
  case (Entry t)
  let ?n = "effective_name (listStack s) name"
  define s2 where "s2 = (if name = ''li'' then s\<lparr>trimNL := True\<rparr> else s)\<lparr>tag := Entry t\<rparr>"
  from ret Entry obtain s3 where
    ip: "indent_prefix cfg (open_spacing s2 ?n (block t)) = Inr s3"
    and s': "s' = open_markers s3 ?n t evattrs"
    by (auto simp: onopentag_def Let_def open_mapped_def s2_def split: sum.splits)
  have s3: "tagStack s3 = tagStack s @ [?n]" "indentStack s3 = indentStack s"
    using indent_prefix_stacks [OF ip]
    by (simp_all add: open_spacing_def Let_def push_def s2_def)
  have ts: "tagStack s' = tagStack s @ [?n]"
    by (simp add: s' open_markers_def Let_def s3 push_def render_attrs_stacks split: option.split)
  have ids: "indentStack s' = indentStack s \<or>
      (truthy (indent t) \<and> indentStack s' = indentStack s @ [?n])"
    by (simp add: s' open_markers_def Let_def s3 push_def render_attrs_stacks split: option.split)
  show ?thesis
    using ids inv Entry by (auto simp: stacks_inv_def ts indentable_def)
next
  case Inherited
  with ret show ?thesis
    by (auto simp: onopentag_def Let_def open_inherited_def split: sum.splits)
qed

lemma ontext_inv:
  assumes "stacks_inv cfg s"
  shows "stacks_inv cfg (ontext s text)"
proof -
  have "indentStack (ontext s text) = indentStack s" "tagStack (ontext s text) = tagStack s"
    by (simp_all add: ontext_def Let_def push_def split: lookup.split)
  then show ?thesis using assms by (rule stacks_inv_same)
qed

lemma close_stacks_inv:
  assumes able: "indentable cfg name = ind" and inv: "stacks_inv cfg s"
  shows "stacks_inv cfg (close_stacks s name ind blk)"
proof -
  let ?s' = "close_stacks s name ind blk"
  have ind: "indentStack ?s' = (if ind then butlast (indentStack s) else indentStack s)"
    by (simp add: close_stacks_def Let_def push_def)
  have tg: "tagStack ?s' =
      (if last_opt (tagStack s) = Some name then butlast (tagStack s) else tagStack s)"
    by (simp add: close_stacks_def Let_def push_def)
  have all: "list_all (indentable cfg) (indentStack ?s')"
    using inv by (auto simp: ind stacks_inv_def list_all_iff dest: in_set_butlastD)
  have len: "length (indentStack ?s') \<le> length (filter (indentable cfg) (tagStack ?s'))"
  proof (cases "last_opt (tagStack s) = Some name")
    case False
    with inv show ?thesis by (simp add: ind tg stacks_inv_def le_diff_conv)
  next
    case True
    then obtain ns where ns: "tagStack s = ns @ [name]"
      by (cases "tagStack s" rule: rev_cases) (simp_all add: last_opt_def)
    with inv True show ?thesis
      by (auto simp: ind tg stacks_inv_def able le_diff_conv)
  qed
  from all len show ?thesis by (simp add: stacks_inv_def)
qed

lemma onclosetag_inv:
  assumes inv: "stacks_inv cfg s" and ret: "onclosetag cfg s name = Inr s'"
  shows "stacks_inv cfg s'"
proof -
  let ?s2 = "close_prepare s name" and ?n = "effective_name (listStack s) name"
  have i2: "stacks_inv cfg ?s2"
    using inv by (simp add: close_prepare_def Let_def stacks_inv_def)
  have keep: "stacks_inv cfg (reset_ignoreClose x)" if "stacks_inv cfg x" for x
    using that by (simp add: reset_ignoreClose_def stacks_inv_def)
  from ret show ?thesis
  proof (cases rule: onclosetag_InrE)
    case absent
    have "stacks_inv cfg (push x ?s2)" for x
      using i2 by (simp add: push_def stacks_inv_def)
    with absent i2 show ?thesis by (simp add: keep)
  next
    case (entry t)
    have "stacks_inv cfg (close_marker ?s2 t)"
      using i2 by (simp add: close_marker_def push_def stacks_inv_def)
    moreover have "indentable cfg ?n = truthy (indent t)"
      using entry by (simp add: indentable_def)
    ultimately have "stacks_inv cfg (close_mapped ?s2 ?n t)"
      unfolding close_mapped_def by (rule close_stacks_inv [rotated])
    with entry show ?thesis by (simp add: keep)
  next
    case inherited
    then have "indentable cfg ?n = False"
      by (simp add: indentable_def)
    then have "stacks_inv cfg (close_stacks ?s2 ?n False False)"
      using i2 by (rule close_stacks_inv)
    with inherited show ?thesis by (simp add: keep)
  qed
qed

lemma handlers_keep_stack_lengths:
  assumes "run cfg init evs = Inr s"
  shows "length (indentStack s) \<le> length (tagStack s)"
proof -
  have "stacks_inv cfg s'" if "stacks_inv cfg s0" "run cfg s0 evs = Inr s'" for s0 s'
    using that
  proof (induction evs arbitrary: s0)
    case Nil
    then show ?case by simp
  next
    case (Cons ev evs)
    from Cons.prems(2) obtain s1 where h: "handle cfg s0 ev = Inr s1"
      and r: "run cfg s1 evs = Inr s'"
      by (auto split: sum.splits)
    have "stacks_inv cfg s1"
      using h Cons.prems(1)
      by (cases ev) (auto simp: handle_def intro: onopentag_inv ontext_inv onclosetag_inv)
    then show ?case using r by (rule Cons.IH)
  qed
  from this [OF stacks_inv_init assms]
  have "length (indentStack s) \<le> length (filter (indentable cfg) (tagStack s))"
    by (simp add: stacks_inv_def)
  also have "\<dots> \<le> length (tagStack s)"
    by (rule length_filter_le)
  finally show ?thesis .
qed

text \<open>
  C9 says that the tag stack is at least as long as the indent stack after every event.
  The three handlers keep this through every run of events that returns. The close
  events synthesized at the end of input do not: the loop pops a name, and the close
  handler pops the equal name below it as well while the indent stack loses one name
  (the double pop of C3). Evaluated on \<^verbatim>\<open>open(blockquote)\<close>, \<^verbatim>\<open>open(blockquote)\<close> and
  the end of input: the tag stack is empty and the indent stack still holds one name.
\<close>

theorem C9_closing_loop_breaks_lengths:
  "\<exists>s s'. run (default_config rb) init [Open ''blockquote'' [], Open ''blockquote'' []] = Inr s \<and>
     tagStack s = [''blockquote'', ''blockquote''] \<and>
     indentStack s = [''blockquote'', ''blockquote''] \<and>
     closeUnclosedTags (default_config rb) s = Inr s' \<and>
     tagStack s' = [] \<and> indentStack s' = [''blockquote''] \<and>
     length (tagStack s') < length (indentStack s')"
proof -
  let ?cfg = "default_config rb"
  let ?s = "init\<lparr>stack := [''> '', [nl], ''> '', ''> ''],
      tagStack := [''blockquote'', ''blockquote''],
      indentStack := [''blockquote'', ''blockquote''], tag := defaultDialect ''blockquote''\<rparr>"
  let ?s' = "init\<lparr>stack := [''> '', [nl], ''> '', ''> '', [nl]],
      indentStack := [''blockquote''], tag := defaultDialect ''blockquote''\<rparr>"
  have r: "run ?cfg init [Open ''blockquote'' [], Open ''blockquote'' []] = Inr ?s"
    by (simp add: model_defs)
  have c: "onclosetag ?cfg (?s\<lparr>tagStack := [''blockquote'']\<rparr>) ''blockquote'' = Inr ?s'"
    by (simp add: model_defs)
  have "closeUnclosedTags ?cfg ?s = closeUnclosedTags ?cfg ?s'"
    by (rule closeUnclosedTags_snoc [where ns = "[''blockquote'']", OF _ _ c])
       (simp_all add: init_def)
  also have "\<dots> = Inr ?s'"
    by (rule closeUnclosedTags_empty) (simp add: init_def)
  finally have cu: "closeUnclosedTags ?cfg ?s = Inr ?s'" .
  have "tagStack ?s' = []" "indentStack ?s' = [''blockquote'']"
    by (simp_all add: init_def)
  with r cu show ?thesis by auto
qed

subsection \<open>List items outside a list\<close>














end
